theory Spec2Isabelle
  imports Main "HOL-Library.Word" "HOL-Library.Stream"
begin

unbundle bit_operations_syntax

section \<open>SerialTxRx: OSP and NMEA framing over a serial port\<close>

text \<open>
  A shallow embedding of \<^verbatim>\<open>SerialTxRx/src_Ubuntu/SerialTxRx.cpp\<close> and
  \<^verbatim>\<open>SerialTxRx.h\<close>. Bytes (\<^verbatim>\<open>unsigned char\<close>) are \<open>8 word\<close>,
  \<^verbatim>\<open>unsigned int\<close> values that are masked or compared are \<open>32 word\<close>,
  \<^verbatim>\<open>ssize_t\<close> and \<^verbatim>\<open>int\<close> counters are \<open>int\<close> (the platform is taken to
  be LP64, where \<^verbatim>\<open>ssize_t\<close> is wider than \<^verbatim>\<open>unsigned int\<close>, so that a
  comparison of the two is a comparison of signed values), and sizes that only
  grow from 0 are \<open>nat\<close>. A function whose loop may run forever returns an
  \<open>option\<close>: \<open>None\<close> is "does not return".
\<close>

subsection \<open>Constants of SerialTxRx.h\<close>

type_synonym byte = "8 word"
type_synonym uint = "32 word"

definition MAXBUFFERSIZE :: nat where "MAXBUFFERSIZE = 2052"
definition START1 :: byte where "START1 = 160"
definition START2 :: byte where "START2 = 162"
definition END1 :: byte where "END1 = 176"
definition END2 :: byte where "END2 = 179"
definition LF :: byte where "LF = 0x0A"
definition CR :: byte where "CR = 0x0D"
definition DOLAR :: byte where "DOLAR = 0x24"

subsection \<open>The serial line (POSIX read, write, tcdrain)\<close>

text \<open>
  The port is not code of the repository. Its input side is the unending
  sequence of what the device answers to successive \<^verbatim>\<open>read\<close> calls: a failure
  (\<^verbatim>\<open>read\<close> returns -1) or a run of bytes that are ready (\<^verbatim>\<open>read(fd, buf, n)\<close>
  returns the first \<open>n\<close> of them and leaves the others for the next call; an
  empty run is a \<^verbatim>\<open>read\<close> that returns 0).
\<close>

datatype rd = RdError | RdData "byte list"

definition sys_read :: "rd stream \<Rightarrow> nat \<Rightarrow> int \<times> byte list \<times> rd stream" where
  "sys_read tr n =
     (case shd tr of
        RdError \<Rightarrow> (- 1, [], stl tr)
      | RdData bs \<Rightarrow>
          (int (length (take n bs)), take n bs,
           if drop n bs = [] then stl tr else RdData (drop n bs) ## stl tr))"

text \<open>A line that has the bytes \<open>bs\<close> ready and then goes on as \<open>tr\<close>.\<close>

definition feed :: "byte list \<Rightarrow> rd stream \<Rightarrow> rd stream" where
  "feed bs tr = (if bs = [] then tr else RdData bs ## tr)"

text \<open>
  The output side: what \<^verbatim>\<open>write\<close> answers (-1, or the number of bytes it
  takes), and whether \<^verbatim>\<open>tcdrain\<close> succeeds (a \<open>bool\<close> parameter of the writers).
\<close>

datatype wr = WrError | WrAccept nat

definition sys_write :: "wr \<Rightarrow> 'a list \<Rightarrow> int" where
  "sys_write port buf =
     (case port of WrError \<Rightarrow> - 1 | WrAccept k \<Rightarrow> int (min k (length buf)))"

subsection \<open>The object\<close>

text \<open>
  \<open>payBuff\<close> and \<open>paylenBuff\<close> are stores indexed by the offset from the start
  of the array. \<open>payBuff\<close> has \<open>MAXBUFFERSIZE\<close> cells; an offset below 0 is the
  memory in front of it (readOSPmsg can write there, see \<open>payload_read\<close>).
\<close>

record SerialTxRx =
  hSerial :: "rd stream"
  paylenBuff :: "int \<Rightarrow> byte"
  payBuff :: "int \<Rightarrow> byte"
  payloadLen :: nat

text \<open>
  The constructor (lines 25-46) sets \<open>payloadLen\<close> to 0 and leaves the buffers as
  they are; an object on a given line, with buffers of zeros.
\<close>

definition new_SerialTxRx :: "rd stream \<Rightarrow> SerialTxRx" where
  "new_SerialTxRx tr =
     \<lparr>hSerial = tr, paylenBuff = (\<lambda>i. 0), payBuff = (\<lambda>i. 0), payloadLen = 0\<rparr>"

fun store :: "(int \<Rightarrow> byte) \<Rightarrow> int \<Rightarrow> byte list \<Rightarrow> (int \<Rightarrow> byte)" where
  "store buf at [] = buf"
| "store buf at (b # bs) = store (buf(at := b)) (at + 1) bs"

subsection \<open>synchOSPmsg (lines 162-201)\<close>

text \<open>The two nested switches: the new state and patience after one byte.\<close>

definition synchOSPstep :: "int \<Rightarrow> int \<Rightarrow> byte \<Rightarrow> int \<times> int" where
  "synchOSPstep state patience inData =
     (if state = 1 then
        (if inData = START1 then (2, patience)
         else if inData = START2 then (state, patience)
         else (state, patience - 1))
      else if state = 2 then
        (if inData = START1 then (state, patience)
         else if inData = START2 then (3, patience)
         else (1, patience - 1))
      else (state, patience))"

text \<open>The loop variables: state, patience, and the line.\<close>

type_synonym synch = "int \<times> int \<times> rd stream"

text \<open>One run of the loop body: a one-byte read, then the switch or \<^verbatim>\<open>patience--\<close>.\<close>

definition synchOSPiter :: "synch \<Rightarrow> synch" where
  "synchOSPiter s =
     (case s of (state, patience, tr) \<Rightarrow>
        (case sys_read tr 1 of
           (nBytesRead, inData, tr') \<Rightarrow>
             if nBytesRead = 1 then
               (case synchOSPstep state patience (hd inData) of
                  (state', patience') \<Rightarrow> (state', patience', tr'))
             else (state, patience - 1, tr')))"

partial_function (option) synchOSPloop :: "synch \<Rightarrow> synch option" where
  "synchOSPloop s =
     (if fst s \<noteq> 3 \<and> fst (snd s) > 0 then synchOSPloop (synchOSPiter s) else Some s)"

definition synchOSPmsg :: "int \<Rightarrow> rd stream \<Rightarrow> (bool \<times> rd stream) option" where
  "synchOSPmsg patience tr =
     (case synchOSPloop (1, patience, tr) of
        None \<Rightarrow> None
      | Some (state, patience', tr') \<Rightarrow> Some (state = 3, tr'))"

subsection \<open>The OSP checksum (lines 246-251 and 297-301)\<close>

text \<open>
  Both functions start from the first payload byte and, for every further
  byte, add it and mask with \<^verbatim>\<open>0x7FFF\<close>.
\<close>

definition ospChecksum :: "byte \<Rightarrow> byte list \<Rightarrow> uint" where
  "ospChecksum first others =
     fold (\<lambda>b computedCheck. (computedCheck + ucast b) AND 0x7FFF) others (ucast first)"

subsection \<open>readOSPmsg (lines 215-261)\<close>

text \<open>
  The body of the do-while loop (lines 236-237), on the object and
  \<open>nBytesStored\<close>: the result is \<open>nBytesRead\<close> and the new values.
\<close>

type_synonym payload_vars = "SerialTxRx \<times> int"

definition payload_read :: "payload_vars \<Rightarrow> int \<times> payload_vars" where
  "payload_read v =
     (case v of (st, nBytesStored) \<Rightarrow>
        (case sys_read (hSerial st) (nat (int (payloadLen st) + 2 - nBytesStored)) of
           (nBytesRead, data, tr') \<Rightarrow>
             (nBytesRead,
              st\<lparr>hSerial := tr', payBuff := store (payBuff st) nBytesStored data\<rparr>,
              nBytesStored + nBytesRead)))"

partial_function (option) payload_loop :: "payload_vars \<Rightarrow> payload_vars option" where
  "payload_loop v =
     (if fst (payload_read v) \<noteq> 0
         \<and> snd (snd (payload_read v)) < int (payloadLen (fst v)) + 2
      then payload_loop (snd (payload_read v))
      else Some (snd (payload_read v)))"

text \<open>Lines 245-260: the checksum comparison, 1 or 0.\<close>

definition readOSPcheck :: "SerialTxRx \<Rightarrow> int" where
  "readOSPcheck st =
     (let computedCheck =
            ospChecksum (payBuff st 0) (map (\<lambda>i. payBuff st (int i)) [1..<payloadLen st]);
          messageCheck =
            push_bit 8 (ucast (payBuff st (int (payloadLen st))))
              OR ucast (payBuff st (int (payloadLen st) + 1))
      in if computedCheck \<noteq> messageCheck then 1 else 0)"

text \<open>Lines 233-260: what follows the length check.\<close>

definition readOSPpayload :: "SerialTxRx \<Rightarrow> (int \<times> SerialTxRx) option" where
  "readOSPpayload st =
     (case payload_loop (st, 0) of
        None \<Rightarrow> None
      | Some (st', nBytesStored) \<Rightarrow>
          if nBytesStored < int (payloadLen st') + 2 then Some (2, st')
          else Some (readOSPcheck st', st'))"

definition readOSPmsg :: "int \<Rightarrow> SerialTxRx \<Rightarrow> (int \<times> SerialTxRx) option" where
  "readOSPmsg patience st =
     (case synchOSPmsg patience (hSerial st) of
        None \<Rightarrow> None
      | Some (synched, tr1) \<Rightarrow>
          if \<not> synched then Some (6, st\<lparr>hSerial := tr1\<rparr>)
          else
            (case sys_read tr1 2 of
               (nBytesRead, data, tr2) \<Rightarrow>
                 let st2 = st\<lparr>hSerial := tr2, paylenBuff := store (paylenBuff st) 0 data\<rparr>
                 in if nBytesRead \<noteq> 2 then Some (4, st2)
                    else
                      let st3 = st2\<lparr>payloadLen :=
                                  push_bit 8 (unat (paylenBuff st2 0)) OR unat (paylenBuff st2 1)\<rparr>
                      in if \<not> (payloadLen st3 > 0 \<and> payloadLen st3 < MAXBUFFERSIZE - 1 - 2)
                         then Some (3, st3)
                         else readOSPpayload st3))"

subsection \<open>The C and C++ library functions the writers and readNMEAmsg call\<close>

text \<open>
  These are not code of the repository; they are written after ISO C. Text is
  handled by character code (\<open>nat\<close>), so that the same definitions serve a
  \<open>string\<close> (through \<open>of_char\<close>) and the bytes of \<open>payBuff\<close> (through \<open>unat\<close>).
\<close>

text \<open>\<^verbatim>\<open>isspace\<close> in the C locale: space, and \<^verbatim>\<open>\t \n \v \f \r\<close>.\<close>

definition isspace :: "nat \<Rightarrow> bool" where
  "isspace c = (c = 32 \<or> (9 \<le> c \<and> c \<le> 13))"

text \<open>
  \<^verbatim>\<open>while (ss >> strBuf) tokens.push_back(strBuf)\<close> (lines 276-277): the maximal runs
  of characters that are not white space. \<open>cur\<close> is the token being read.
\<close>

fun get_tokens :: "string \<Rightarrow> string \<Rightarrow> string list" where
  "get_tokens cur [] = (if cur = [] then [] else [cur])"
| "get_tokens cur (c # cs) =
     (if isspace (of_char c) then (if cur = [] then get_tokens [] cs else cur # get_tokens [] cs)
      else get_tokens (cur @ [c]) cs)"

text \<open>The value of a digit or letter as a digit, by character code.\<close>

definition digit_of :: "nat \<Rightarrow> nat option" where
  "digit_of c =
     (if 48 \<le> c \<and> c \<le> 57 then Some (c - 48)
      else if 97 \<le> c \<and> c \<le> 122 then Some (c - 87)
      else if 65 \<le> c \<and> c \<le> 90 then Some (c - 55)
      else None)"

text \<open>
  The longest run of digits of the base at the front of the text: its value
  (from the accumulator) and the number of digits read.
\<close>

fun digits_val :: "nat \<Rightarrow> nat \<Rightarrow> nat list \<Rightarrow> nat \<times> nat" where
  "digits_val base acc [] = (acc, 0)"
| "digits_val base acc (c # cs) =
     (case digit_of c of
        None \<Rightarrow> (acc, 0)
      | Some d \<Rightarrow>
          if d < base
          then (case digits_val base (acc * base + d) cs of (v, k) \<Rightarrow> (v, Suc k))
          else (acc, 0))"

text \<open>
  \<^verbatim>\<open>strtoul\<close>: white space, an optional sign, an optional \<^verbatim>\<open>0x\<close> when the base is
  16 or 0, then digits. \<open>None\<close> when nothing is converted (also for a base that
  is neither 0 nor in 2..36); otherwise whether a minus sign was read, and the
  magnitude.
\<close>

definition strtoul :: "nat list \<Rightarrow> int \<Rightarrow> (bool \<times> nat) option" where
  "strtoul str base =
     (let s1 = dropWhile isspace str;
          neg = (take 1 s1 = [45]);
          s2 = (if take 1 s1 = [43] \<or> take 1 s1 = [45] then drop 1 s1 else s1);
          prefixed = ((take 2 s2 = [48, 120] \<or> take 2 s2 = [48, 88])
                       \<and> (case digit_of (hd (drop 2 s2 @ [0])) of
                            None \<Rightarrow> False | Some d \<Rightarrow> d < 16));
          b = (if base = 0
               then (if prefixed then 16 else if take 1 s2 = [48] then 8 else 10)
               else nat base);
          s3 = (if (base = 0 \<or> base = 16) \<and> prefixed then drop 2 s2 else s2)
      in if base < 0 \<or> base = 1 \<or> 36 < base then None
         else (case digits_val b 0 s3 of
                 (v, k) \<Rightarrow> if k = 0 then None else Some (neg, v)))"

datatype cmd_error =
  CmdTooLong | InvalidArgument | OutOfRange | BufferOverrun | DrainError | SendError

text \<open>
  \<^verbatim>\<open>std::stoul(str, nullptr, base)\<close>: \<^verbatim>\<open>std::invalid_argument\<close> when nothing is
  converted, \<^verbatim>\<open>std::out_of_range\<close> above \<^verbatim>\<open>ULONG_MAX\<close> (64 bits); a minus sign
  negates modulo \<open>2 ^ 64\<close>.
\<close>

definition stoul :: "string \<Rightarrow> int \<Rightarrow> cmd_error + nat" where
  "stoul str base =
     (case strtoul (map of_char str) base of
        None \<Rightarrow> Inl InvalidArgument
      | Some (neg, v) \<Rightarrow>
          if 2 ^ 64 \<le> v then Inl OutOfRange
          else Inr (if neg then (2 ^ 64 - v) mod 2 ^ 64 else v))"

text \<open>
  \<^verbatim>\<open>sscanf(s, "%x", &messageCheck)\<close>: the conversion of \<^verbatim>\<open>strtoul\<close> in base 16,
  stored as \<^verbatim>\<open>unsigned int\<close>; when nothing is converted the variable keeps its
  value.
\<close>

definition sscanf_x :: "nat list \<Rightarrow> uint \<Rightarrow> uint" where
  "sscanf_x s old =
     (case strtoul s 16 of
        None \<Rightarrow> old
      | Some (neg, v) \<Rightarrow> if neg then - of_nat v else of_nat v)"

text \<open>Digits for \<^verbatim>\<open>sprintf\<close>; the index is always below the base.\<close>

definition digit_char :: "nat \<Rightarrow> char" where
  "digit_char d = ''0123456789ABCDEF'' ! d"

fun numeral_of :: "nat \<Rightarrow> nat \<Rightarrow> string" where
  "numeral_of base n =
     (if base < 2 \<or> n < base then [digit_char n]
      else numeral_of base (n div base) @ [digit_char (n mod base)])"

text \<open>\<^verbatim>\<open>%3d\<close>: decimal, with a minus sign if negative, padded on the left with spaces to 3.\<close>

definition fmt_3d :: "int \<Rightarrow> string" where
  "fmt_3d n =
     (let s = (if n < 0 then CHR ''-'' # numeral_of 10 (nat (- n)) else numeral_of 10 (nat n))
      in replicate (3 - length s) CHR '' '' @ s)"

text \<open>\<^verbatim>\<open>%02X\<close>: upper-case hexadecimal, padded on the left with zeros to 2.\<close>

definition fmt_02X :: "nat \<Rightarrow> string" where
  "fmt_02X n = (let s = numeral_of 16 n in replicate (2 - length s) CHR ''0'' @ s)"

text \<open>\<^verbatim>\<open>c_str()\<close> read as a C string: the characters before the first NUL.\<close>

definition c_str :: "string \<Rightarrow> string" where
  "c_str s = takeWhile (\<lambda>c. c \<noteq> CHR 0x00) s"

subsection \<open>writeOSPcmd (lines 270-332)\<close>

text \<open>Lines 292-295: \<^verbatim>\<open>stoul\<close> on each token, the first exception ends the loop.\<close>

fun stoul_each :: "string list \<Rightarrow> int \<Rightarrow> cmd_error + byte list" where
  "stoul_each [] base = Inr []"
| "stoul_each (t # ts) base =
     (case stoul t base of
        Inl e \<Rightarrow> Inl e
      | Inr ul \<Rightarrow>
          (case stoul_each ts base of
             Inl e \<Rightarrow> Inl e
           | Inr bs \<Rightarrow> Inr (of_nat (ul AND 0xFF) # bs)))"

text \<open>
  Lines 286-306: the bytes put into \<open>payBuff\<close>, from index 0, for a payload
  (\<open>mid\<close> and the token bytes) of length \<open>len\<close> (an \<^verbatim>\<open>unsigned int\<close>).
\<close>

definition OSPframe :: "nat \<Rightarrow> byte \<Rightarrow> byte list \<Rightarrow> byte list" where
  "OSPframe len mid args =
     (let computedCheck = ospChecksum mid args
      in [START1, START2, of_nat (drop_bit 8 len), of_nat (len AND 0xFF)]
         @ mid # args
         @ [ucast (drop_bit 8 computedCheck), ucast (computedCheck AND 0xFF), END1, END2])"

text \<open>
  The result is the error thrown, or the bytes that \<^verbatim>\<open>write\<close> took (all of the
  frame). Line 278 keeps \<open>1 + tokens.size()\<close> in an \<^verbatim>\<open>unsigned int\<close> and line 279
  adds to it in \<^verbatim>\<open>unsigned int\<close>: both wrap at \<open>2 ^ 32\<close>. The loop of lines
  292-295 converts every token and puts its byte at \<open>payBuff[5 + i]\<close>; the token
  of index \<open>MAXBUFFERSIZE - 5\<close> is the first whose byte has no cell in
  \<open>payBuff\<close>, and it is still converted before the byte is put. Where the bytes
  of the frame do not fit in \<open>payBuff\<close> the behaviour is undefined, and the model
  stops with \<open>BufferOverrun\<close>.
\<close>

definition writeOSPcmd :: "int \<Rightarrow> string \<Rightarrow> int \<Rightarrow> wr \<Rightarrow> bool \<Rightarrow> cmd_error + byte list" where
  "writeOSPcmd mid cmdArgs base port drained =
     (let tokens = get_tokens [] cmdArgs;
          len = (1 + length tokens) mod 2 ^ 32
      in if (2 + 2 + 1 + len + 2 + 2) mod 2 ^ 32 > MAXBUFFERSIZE then Inl CmdTooLong
         else
           (case stoul_each (take (MAXBUFFERSIZE - 4) tokens) base of
              Inl e \<Rightarrow> Inl e
            | Inr args \<Rightarrow>
                if MAXBUFFERSIZE < 2 + 2 + 1 + length tokens + 2 + 2 then Inl BufferOverrun
                else
                  let frame = OSPframe len (word_of_int mid) args;
                      nBytesWritten = sys_write port frame
                  in if \<not> drained then Inl DrainError
                     else if int (length frame) \<noteq> nBytesWritten then Inl SendError
                     else Inr frame))"

text \<open>Whether a run of bytes holds START1 directly followed by START2.\<close>

fun has_start :: "byte list \<Rightarrow> bool" where
  "has_start (a # b # bs) = ((a = START1 \<and> b = START2) \<or> has_start (b # bs))"
| "has_start bs = False"

text \<open>
  An argument text for given argument bytes, for the statements about
  writeOSPcmd: each byte as two hexadecimal digits, followed by a space.
\<close>

definition hex_args :: "byte list \<Rightarrow> string" where
  "hex_args bs = concat (map (\<lambda>b. fmt_02X (unat b) @ '' '') bs)"

subsection \<open>synchNMEAmsg (lines 340-376)\<close>

definition synchNMEAstep :: "int \<Rightarrow> int \<Rightarrow> byte \<Rightarrow> int \<times> int" where
  "synchNMEAstep state patience inData =
     (if state = 1 then
        (if inData = LF then (2, patience)
         else if inData = DOLAR then (state, patience)
         else (state, patience - 1))
      else if state = 2 then
        (if inData = LF then (state, patience)
         else if inData = DOLAR then (3, patience)
         else (1, patience - 1))
      else (state, patience))"

definition synchNMEAiter :: "synch \<Rightarrow> synch" where
  "synchNMEAiter s =
     (case s of (state, patience, tr) \<Rightarrow>
        (case sys_read tr 1 of
           (nBytesRead, inData, tr') \<Rightarrow>
             if nBytesRead = 1 then
               (case synchNMEAstep state patience (hd inData) of
                  (state', patience') \<Rightarrow> (state', patience', tr'))
             else (state, patience - 1, tr')))"

partial_function (option) synchNMEAloop :: "synch \<Rightarrow> synch option" where
  "synchNMEAloop s =
     (if fst s \<noteq> 3 \<and> fst (snd s) > 0 then synchNMEAloop (synchNMEAiter s) else Some s)"

definition synchNMEAmsg :: "int \<Rightarrow> rd stream \<Rightarrow> (bool \<times> rd stream) option" where
  "synchNMEAmsg patience tr =
     (case synchNMEAloop (1, patience, tr) of
        None \<Rightarrow> None
      | Some (state, patience', tr') \<Rightarrow> Some (state = 3, tr'))"

subsection \<open>The NMEA checksum (lines 418-419 and 442-443)\<close>

definition nmeaChecksum :: "byte \<Rightarrow> byte list \<Rightarrow> uint" where
  "nmeaChecksum first others =
     fold (\<lambda>b computedCheck. computedCheck XOR ucast b) others (ucast first)"

subsection \<open>readNMEAmsg (lines 388-426)\<close>

text \<open>\<^verbatim>\<open>read(hSerial, payBuff + payloadLen, 1)\<close>: the count read and the object.\<close>

definition nmea_read :: "SerialTxRx \<Rightarrow> int \<times> SerialTxRx" where
  "nmea_read st =
     (case sys_read (hSerial st) 1 of
        (nBytesRead, data, tr') \<Rightarrow>
          (nBytesRead,
           st\<lparr>hSerial := tr', payBuff := store (payBuff st) (int (payloadLen st)) data\<rparr>))"

text \<open>
  Lines 400-409, once the byte just stored is the carriage return: the new
  \<open>returnValue\<close> and the object.
\<close>

definition on_CR :: "SerialTxRx \<Rightarrow> int \<times> SerialTxRx" where
  "on_CR st1 =
     (let st2 = st1\<lparr>payBuff := (payBuff st1)(int (payloadLen st1) := 0)\<rparr>
      in if payloadLen st2 < 5 then (2, st2)
         else
           (let st3 = st2\<lparr>payloadLen := payloadLen st2 - 3\<rparr>
            in (0, st3\<lparr>payBuff := (payBuff st3)(int (payloadLen st3) := 0)\<rparr>)))"

text \<open>
  The while loop of lines 399-413: \<open>returnValue\<close> (3 unless the loop sets it)
  and the object when the loop is left.
\<close>

function readNMEAloop :: "SerialTxRx \<Rightarrow> int \<times> SerialTxRx" where
  "readNMEAloop st =
     (if fst (nmea_read st) \<noteq> 1 then (3, snd (nmea_read st))
      else
        let st1 = snd (nmea_read st)
        in if payBuff st1 (int (payloadLen st1)) = CR then on_CR st1
           else if payloadLen st1 < MAXBUFFERSIZE - 1
           then readNMEAloop (st1\<lparr>payloadLen := payloadLen st1 + 1\<rparr>)
           else (3, st1))"
  by pat_completeness auto
termination
  by (relation "measure (\<lambda>st. MAXBUFFERSIZE - payloadLen st)")
    (auto simp: nmea_read_def split: prod.splits)

declare readNMEAloop.simps [simp del]

text \<open>
  Lines 415-423. The C string at \<open>payBuff + payloadLen + 1\<close> ends at the latest
  at the NUL that line 401 put where the carriage return was, two cells on.
\<close>

definition readNMEAcheck :: "SerialTxRx \<Rightarrow> int" where
  "readNMEAcheck st =
     (let computedCheck =
            nmeaChecksum (payBuff st 0) (map (\<lambda>i. payBuff st (int i)) [1..<payloadLen st]);
          messageCheck =
            sscanf_x
              (map unat
                 (takeWhile (\<lambda>b. b \<noteq> 0)
                    [payBuff st (int (payloadLen st) + 1), payBuff st (int (payloadLen st) + 2)]))
              0
      in if computedCheck \<noteq> messageCheck then 1 else 0)"

definition readNMEAmsg :: "int \<Rightarrow> SerialTxRx \<Rightarrow> (int \<times> SerialTxRx) option" where
  "readNMEAmsg patience st =
     (let st0 = st\<lparr>payloadLen := 0\<rparr>
      in case synchNMEAmsg patience (hSerial st0) of
           None \<Rightarrow> None
         | Some (synched, tr1) \<Rightarrow>
             if \<not> synched then Some (4, st0\<lparr>hSerial := tr1\<rparr>)
             else
               (case readNMEAloop (st0\<lparr>hSerial := tr1\<rparr>) of
                  (returnValue, st1) \<Rightarrow>
                    if returnValue = 0 then Some (readNMEAcheck st1, st1)
                    else Some (returnValue, st1)))"

subsection \<open>writeNMEAcmd (lines 434-460)\<close>

text \<open>
  \<open>payBuff\<close> as a C string after each \<^verbatim>\<open>sprintf\<close> and \<^verbatim>\<open>strncat\<close>. The source
  does not check that the text and its NUL fit into \<open>payBuff\<close>; where they do
  not, the behaviour is undefined, and the model stops with \<open>BufferOverrun\<close>.
  The result is the error, or the characters that \<^verbatim>\<open>write\<close> took (all of the
  line).
\<close>

definition writeNMEAcmd :: "int \<Rightarrow> string \<Rightarrow> wr \<Rightarrow> bool \<Rightarrow> cmd_error + string" where
  "writeNMEAcmd mid cmdArgs port drained =
     (let buf1 = ''$PSRF'' @ fmt_3d mid @ '','';
          buf2 = buf1 @ take MAXBUFFERSIZE (c_str cmdArgs);
          plLen = length buf2;
          computedCheck =
            nmeaChecksum (of_char (buf2 ! 1)) (map of_char (drop 2 buf2));
          checksumBuff = ''*'' @ fmt_02X (unat computedCheck) @ [CHR 0x0D, CHR 0x0A];
          buf3 = buf2 @ take MAXBUFFERSIZE checksumBuff;
          nBytesWritten = sys_write port buf3
      in if MAXBUFFERSIZE < length buf3 + 1 then Inl BufferOverrun
         else if \<not> drained then Inl DrainError
         else if nBytesWritten \<noteq> int (length buf3) then Inl SendError
         else Inr buf3)"

section \<open>Properties\<close>

subsection \<open>Stores, reads and the reading of one frame\<close>

lemma store_apply:
  "store buf at bs i = (if at \<le> i \<and> i < at + int (length bs) then bs ! nat (i - at) else buf i)"
proof (induction bs arbitrary: buf at)
  case Nil
  then show ?case by auto
next
  case (Cons b bs)
  have "nat (i - at) = Suc (nat (i - (at + 1)))" if "at < i"
    using that by simp
  then show ?case
    unfolding store.simps Cons.IH by auto
qed

lemma store_nth: "i < length bs \<Longrightarrow> store buf 0 bs (int i) = bs ! i"
  by (simp add: store_apply)

lemma store_map_tl: "map (\<lambda>i. store buf 0 (p @ q) (int i)) [Suc 0..<length p] = tl p"
proof -
  have "map (\<lambda>i. store buf 0 (p @ q) (int i)) [Suc 0..<length p] = map (\<lambda>i. p ! i) [Suc 0..<length p]"
    by (simp add: store_nth nth_append cong: map_cong)
  also have "\<dots> = tl p"
    by (simp add: list_eq_iff_nth_eq nth_tl)
  finally show ?thesis .
qed

lemma sys_read_feed_1: "sys_read (feed (b # bs) tr) (Suc 0) = (1, [b], feed bs tr)"
  by (simp add: sys_read_def feed_def)

lemma sys_read_feed:
  "0 < length xs \<Longrightarrow> sys_read (feed (xs @ ys) tr) (length xs) = (int (length xs), xs, feed ys tr)"
  by (simp add: sys_read_def feed_def)

lemma synchOSPloop_start:
  assumes "0 < p"
  shows "synchOSPloop (1, p, feed (START1 # START2 # bs) tr) = Some (3, p, feed bs tr)"
proof -
  have "synchOSPloop (1, p, feed (START1 # START2 # bs) tr) = synchOSPloop (2, p, feed (START2 # bs) tr)"
    using assms
    by (subst synchOSPloop.simps) (simp add: synchOSPiter_def sys_read_feed_1 synchOSPstep_def)
  also have "\<dots> = synchOSPloop (3, p, feed bs tr)"
    using assms
    by (subst synchOSPloop.simps)
      (simp add: synchOSPiter_def sys_read_feed_1 synchOSPstep_def START1_def START2_def)
  also have "\<dots> = Some (3, p, feed bs tr)"
    by (subst synchOSPloop.simps) simp
  finally show ?thesis .
qed

lemma synchOSPmsg_start:
  "0 < p \<Longrightarrow> synchOSPmsg p (feed (START1 # START2 # bs) tr) = Some (True, feed bs tr)"
  by (simp add: synchOSPmsg_def synchOSPloop_start)

lemma payload_loop_all:
  assumes "hSerial st = feed (xs @ ys) tr" and "length xs = payloadLen st + 2"
  shows "payload_loop (st, 0) =
           Some (st\<lparr>hSerial := feed ys tr, payBuff := store (payBuff st) 0 xs\<rparr>, int (length xs))"
proof -
  have n: "nat (int (payloadLen st) + 2 - 0) = length xs" using assms(2) by simp
  have rd: "sys_read (hSerial st) (nat (int (payloadLen st) + 2 - 0)) = (int (length xs), xs, feed ys tr)"
    unfolding n assms(1) by (rule sys_read_feed) (use assms(2) in simp)
  have "payload_read (st, 0) =
          (int (length xs), st\<lparr>hSerial := feed ys tr, payBuff := store (payBuff st) 0 xs\<rparr>,
           int (length xs))"
    by (simp only: payload_read_def prod.case rd) simp
  then show ?thesis using assms(2)
    by (subst payload_loop.simps) simp
qed

lemma readOSPcheck_stored:
  assumes "payBuff st = store buf 0 (p @ [c1, c2])" and "payloadLen st = length p" and "p \<noteq> []"
  shows "readOSPcheck st =
           (if ospChecksum (hd p) (tl p) \<noteq> push_bit 8 (ucast c1) OR ucast c2 then 1 else 0)"
proof -
  have 0: "store buf 0 (p @ [c1, c2]) 0 = hd p"
    using assms(3) by (simp add: store_apply nth_append hd_conv_nth)
  have 1: "store buf 0 (p @ [c1, c2]) (int (length p)) = c1"
    by (simp add: store_apply nth_append)
  have 2: "store buf 0 (p @ [c1, c2]) (int (length p) + 1) = c2"
    by (simp add: store_apply nth_append nat_add_distrib)
  show ?thesis
    by (simp add: readOSPcheck_def assms(1,2) store_map_tl 0 1 2)
qed

lemma mask8: "(255::nat) = mask 8"
  by (simp add: mask_eq_exp_minus_1)

lemma be16_join:
  assumes "n < 65536"
  shows "push_bit 8 (unat (of_nat (drop_bit 8 n) :: byte)) OR unat (of_nat (n AND 0xFF) :: byte) = n"
proof -
  have n: "take_bit 16 n = n" using assms by (simp add: take_bit_nat_eq_self_iff)
  have a: "n AND 255 = take_bit 8 n" by (simp add: mask8 take_bit_eq_mask)
  have "push_bit 8 (take_bit 8 (drop_bit 8 n)) OR take_bit 8 (take_bit 8 n) = take_bit 16 n"
    by (rule bit_eqI) (auto simp: bit_simps)
  then show ?thesis by (simp add: unsigned_of_nat a n)
qed

lemma readOSPmsg_synched:
  assumes "synchOSPmsg patience (hSerial st) = Some (True, tr1)"
    and "sys_read tr1 2 = (2, [hi, lo], tr2)"
  shows "readOSPmsg patience st =
           (let st3 = st\<lparr>hSerial := tr2, paylenBuff := store (paylenBuff st) 0 [hi, lo],
                         payloadLen := push_bit 8 (unat hi) OR unat lo\<rparr>
            in if payloadLen st3 = 0 \<or> MAXBUFFERSIZE - 3 \<le> payloadLen st3 then Some (3, st3)
               else readOSPpayload st3)"
  by (simp add: readOSPmsg_def assms MAXBUFFERSIZE_def Let_def not_less)

lemma readOSPpayload_frame:
  assumes "hSerial s = feed (p @ c1 # c2 # rest) tr" and "payloadLen s = length p" and "p \<noteq> []"
  shows "readOSPpayload s =
           Some (if ospChecksum (hd p) (tl p) \<noteq> push_bit 8 (ucast c1) OR ucast c2 then 1 else 0,
                 s\<lparr>hSerial := feed rest tr, payBuff := store (payBuff s) 0 (p @ [c1, c2])\<rparr>)"
proof -
  let ?s' = "s\<lparr>hSerial := feed rest tr, payBuff := store (payBuff s) 0 (p @ [c1, c2])\<rparr>"
  have loop: "payload_loop (s, 0) = Some (?s', int (length (p @ [c1, c2])))"
    by (rule payload_loop_all) (simp_all add: assms)
  have chk: "readOSPcheck ?s' =
      (if ospChecksum (hd p) (tl p) \<noteq> push_bit 8 (ucast c1) OR ucast c2 then 1 else 0)"
    by (rule readOSPcheck_stored [where buf = "payBuff s"]) (simp_all add: assms)
  show ?thesis
    unfolding readOSPpayload_def loop by (simp only: option.case prod.case chk) (simp add: assms)
qed

text \<open>Reading a well-delimited frame: the status depends on the checksum bytes only.\<close>

lemma readOSPmsg_frame_gen:
  assumes "0 < patience" and "p \<noteq> []" and "length p < MAXBUFFERSIZE - 3"
    and len: "push_bit 8 (unat hi) OR unat lo = length p"
  shows "readOSPmsg patience
           (st\<lparr>hSerial := feed (START1 # START2 # hi # lo # p @ c1 # c2 # rest) tr\<rparr>) =
         Some (if ospChecksum (hd p) (tl p) \<noteq> push_bit 8 (ucast c1) OR ucast c2 then 1 else 0,
               st\<lparr>hSerial := feed rest tr,
                  paylenBuff := store (paylenBuff st) 0 [hi, lo],
                  payBuff := store (payBuff st) 0 (p @ [c1, c2]),
                  payloadLen := length p\<rparr>)"
proof -
  let ?st0 = "st\<lparr>hSerial := feed (START1 # START2 # hi # lo # p @ c1 # c2 # rest) tr\<rparr>"
  let ?s3 = "?st0\<lparr>hSerial := feed (p @ c1 # c2 # rest) tr,
                    paylenBuff := store (paylenBuff ?st0) 0 [hi, lo],
                    payloadLen := push_bit 8 (unat hi) OR unat lo\<rparr>"
  have sy: "synchOSPmsg patience (hSerial ?st0) = Some (True, feed (hi # lo # p @ c1 # c2 # rest) tr)"
    using assms(1) by (simp add: synchOSPmsg_start)
  have rd: "sys_read (feed (hi # lo # p @ c1 # c2 # rest) tr) 2
              = (2, [hi, lo], feed (p @ c1 # c2 # rest) tr)"
    by (simp add: sys_read_def feed_def)
  have 1: "readOSPmsg patience ?st0 = readOSPpayload ?s3"
    unfolding readOSPmsg_synched [OF sy rd] Let_def
    using assms(2,3) by (simp add: len MAXBUFFERSIZE_def)
  have 2: "readOSPpayload ?s3 =
      Some (if ospChecksum (hd p) (tl p) \<noteq> push_bit 8 (ucast c1) OR ucast c2 then 1 else 0,
            ?s3\<lparr>hSerial := feed rest tr, payBuff := store (payBuff ?s3) 0 (p @ [c1, c2])\<rparr>)"
    by (rule readOSPpayload_frame) (simp_all add: len assms(2))
  show ?thesis
    unfolding 1 2 by (simp add: len)
qed

lemma synchOSPiter_patience: "fst (snd s) - 1 \<le> fst (snd (synchOSPiter s))"
  by (cases s) (simp add: synchOSPiter_def synchOSPstep_def split: prod.splits)

lemma synchOSPloop_exit:
  assumes "synchOSPloop s = Some r"
  shows "0 \<le> fst (snd s) \<longrightarrow> fst r = 3 \<or> fst (snd r) = 0"
proof (rule synchOSPloop.raw_induct
    [where P = "\<lambda>s r. 0 \<le> fst (snd s) \<longrightarrow> fst r = 3 \<or> fst (snd r) = 0", OF _ assms])
  fix f :: "synch \<Rightarrow> synch option" and s r
  assume IH: "\<And>s r. f s = Some r \<Longrightarrow> 0 \<le> fst (snd s) \<longrightarrow> fst r = 3 \<or> fst (snd r) = 0"
  assume body: "(if fst s \<noteq> 3 \<and> fst (snd s) > 0 then f (synchOSPiter s) else Some s) = Some r"
  show "0 \<le> fst (snd s) \<longrightarrow> fst r = 3 \<or> fst (snd r) = 0"
  proof (cases "fst s \<noteq> 3 \<and> fst (snd s) > 0")
    case True
    with body have "f (synchOSPiter s) = Some r" by simp
    from IH [OF this] synchOSPiter_patience [of s] True show ?thesis by simp
  next
    case False
    with body have "r = s" by simp
    with False show ?thesis by auto
  qed
qed

subsection \<open>The synchronisation automaton\<close>

text \<open>
  C3. On each byte read in state 1 (waiting for START1): START1 gives state 2,
  START2 stays, both with patience unchanged; any other byte stays and takes
  one unit of patience. In state 2 (waiting for START2): START2 gives state 3
  (synchronised), START1 stays, patience unchanged; any other byte gives
  state 1 and takes one unit. A read that fails or returns nothing takes one
  unit and keeps the state. The loop is left exactly when the state is 3 or
  patience is no longer positive, and from a non-negative patience it is
  left with state 3 or patience 0.
\<close>

theorem synchOSP_automaton:
  "synchOSPstep 1 n START1 = (2, n) \<and>
   synchOSPstep 1 n START2 = (1, n) \<and>
   (b \<noteq> START1 \<and> b \<noteq> START2 \<longrightarrow> synchOSPstep 1 n b = (1, n - 1)) \<and>
   synchOSPstep 2 n START2 = (3, n) \<and>
   synchOSPstep 2 n START1 = (2, n) \<and>
   (b \<noteq> START1 \<and> b \<noteq> START2 \<longrightarrow> synchOSPstep 2 n b = (1, n - 1)) \<and>
   (sys_read tr 1 = (1, [b], tr') \<longrightarrow>
      synchOSPiter (s, n, tr) = (fst (synchOSPstep s n b), snd (synchOSPstep s n b), tr')) \<and>
   (shd tr = RdError \<or> shd tr = RdData [] \<longrightarrow> synchOSPiter (s, n, tr) = (s, n - 1, stl tr)) \<and>
   synchOSPloop (s, n, tr) =
     (if s = 3 \<or> n \<le> 0 then Some (s, n, tr) else synchOSPloop (synchOSPiter (s, n, tr))) \<and>
   (0 \<le> n \<and> synchOSPloop (1, n, tr) = Some (s', n', tr'') \<longrightarrow> s' = 3 \<or> n' = 0)"
proof -
  have step: "synchOSPstep 1 n START1 = (2, n)" "synchOSPstep 1 n START2 = (1, n)"
    "synchOSPstep 2 n START2 = (3, n)" "synchOSPstep 2 n START1 = (2, n)"
    by (simp_all add: synchOSPstep_def START1_def START2_def)
  have other: "b \<noteq> START1 \<and> b \<noteq> START2 \<longrightarrow> synchOSPstep 1 n b = (1, n - 1)"
    "b \<noteq> START1 \<and> b \<noteq> START2 \<longrightarrow> synchOSPstep 2 n b = (1, n - 1)"
    by (simp_all add: synchOSPstep_def)
  have good: "sys_read tr 1 = (1, [b], tr') \<longrightarrow>
      synchOSPiter (s, n, tr) = (fst (synchOSPstep s n b), snd (synchOSPstep s n b), tr')"
    by (simp add: synchOSPiter_def split: prod.splits)
  have bad: "shd tr = RdError \<or> shd tr = RdData [] \<longrightarrow> synchOSPiter (s, n, tr) = (s, n - 1, stl tr)"
    by (auto simp: synchOSPiter_def sys_read_def)
  have loop: "synchOSPloop (s, n, tr) =
     (if s = 3 \<or> n \<le> 0 then Some (s, n, tr) else synchOSPloop (synchOSPiter (s, n, tr)))"
    by (subst synchOSPloop.simps) auto
  have exit: "0 \<le> n \<and> synchOSPloop (1, n, tr) = Some (s', n', tr'') \<longrightarrow> s' = 3 \<or> n' = 0"
    using synchOSPloop_exit [of "(1, n, tr)" "(s', n', tr'')"] by simp
  from step other good bad loop exit show ?thesis by (intro conjI)
qed

theorem synchOSP_automaton_witness:
  "synchOSPstep 1 10 7 = (1, 9) \<and> synchOSPstep 2 10 7 = (1, 9) \<and>
   synchOSPiter (2, 10, feed [7] (sconst RdError)) = (1, 9, sconst RdError) \<and>
   synchOSPiter (2, 10, sconst RdError) = (2, 9, sconst RdError) \<and>
   synchOSPloop (1, 0, sconst RdError) = Some (1, 0, sconst RdError)"
proof -
  have r: "sys_read (feed [7] (sconst RdError)) 1 = (1, [7], sconst RdError)"
    by (simp add: sys_read_def feed_def)
  have e: "shd (sconst RdError) = RdError \<or> shd (sconst RdError) = RdData []"
    by simp
  show ?thesis
    using synchOSP_automaton [of 10 7 "feed [7] (sconst RdError)" "sconst RdError" 2]
      synchOSP_automaton [of 10 7 "sconst RdError" "sconst RdError" 2]
      synchOSP_automaton [of 0 7 "sconst RdError" "sconst RdError" 1] r e
    by (simp add: START1_def START2_def)
qed

lemma be16_value: "push_bit 8 (unat (hi :: byte)) OR unat (lo :: byte) = unat hi * 256 + unat lo"
proof -
  have "push_bit 8 (unat hi) + unat lo = push_bit 8 (unat hi) OR unat lo"
    by (rule disjunctive_add) (auto simp: bit_simps dest: bit_imp_le_length)
  then show ?thesis by (simp add: push_bit_eq_mult)
qed

subsection \<open>The length check of readOSPmsg\<close>

lemma readOSPcheck_range: "readOSPcheck s = 0 \<or> readOSPcheck s = 1"
  by (simp add: readOSPcheck_def Let_def)

lemma readOSPpayload_status:
  assumes "readOSPpayload s = Some (k, s')"
  shows "k = 0 \<or> k = 1 \<or> k = 2"
  using assms readOSPcheck_range
  by (auto simp: readOSPpayload_def split: option.splits prod.splits if_splits)

text \<open>
  C5. Once the start sequence has been found and the two length bytes \<open>hi\<close>,
  \<open>lo\<close> have been read in one \<^verbatim>\<open>read\<close>, the declared length is
  \<open>hi * 256 + lo\<close>. If it is 0 or at least \<open>MAXBUFFERSIZE - 3\<close>, readOSPmsg
  returns 3 and the line is where the length read left it (no payload byte is
  asked for); otherwise readOSPmsg is the payload phase run on that line, and
  it does not return 3. The witness is the declared length \<open>MAXBUFFERSIZE\<close>
  (bytes 8 and 4).
\<close>

theorem readOSPmsg_length_check:
  assumes "synchOSPmsg patience (hSerial st) = Some (True, tr1)"
    and "sys_read tr1 2 = (2, [hi, lo], tr2)"
  shows "let len = unat hi * 256 + unat lo;
             st3 = st\<lparr>hSerial := tr2, paylenBuff := store (paylenBuff st) 0 [hi, lo],
                       payloadLen := len\<rparr>
         in if len = 0 \<or> MAXBUFFERSIZE - 3 \<le> len
            then readOSPmsg patience st = Some (3, st3)
            else readOSPmsg patience st = readOSPpayload st3
                 \<and> (\<forall>s'. readOSPmsg patience st \<noteq> Some (3, s'))"
proof -
  let ?st3 = "st\<lparr>hSerial := tr2, paylenBuff := store (paylenBuff st) 0 [hi, lo],
                   payloadLen := unat hi * 256 + unat lo\<rparr>"
  have r: "readOSPmsg patience st =
      (if unat hi * 256 + unat lo = 0 \<or> MAXBUFFERSIZE - 3 \<le> unat hi * 256 + unat lo
       then Some (3, ?st3) else readOSPpayload ?st3)"
    unfolding readOSPmsg_synched [OF assms] Let_def be16_value by simp
  have "readOSPpayload ?st3 \<noteq> Some (3, s')" for s'
    using readOSPpayload_status [of ?st3 3 s'] by auto
  with r show ?thesis unfolding Let_def by simp
qed

theorem readOSPmsg_length_check_witness:
  "readOSPmsg 10 (new_SerialTxRx (feed [160, 162, 8, 4, 1, 2, 3] (sconst (RdData [])))) =
     Some (3, \<lparr>hSerial = feed [1, 2, 3] (sconst (RdData [])),
               paylenBuff = store (\<lambda>i. 0) 0 [8, 4], payBuff = (\<lambda>i. 0),
               payloadLen = MAXBUFFERSIZE\<rparr>)"
proof -
  let ?tr = "sconst (RdData [])"
  have sy: "synchOSPmsg 10 (hSerial (new_SerialTxRx (feed [160, 162, 8, 4, 1, 2, 3] ?tr)))
              = Some (True, feed [8, 4, 1, 2, 3] ?tr)"
    using synchOSPmsg_start [of 10 "[8, 4, 1, 2, 3]" ?tr]
    by (simp add: new_SerialTxRx_def START1_def START2_def)
  have rd: "sys_read (feed [8, 4, 1, 2, 3] ?tr) 2 = (2, [8, 4], feed [1, 2, 3] ?tr)"
    by (simp add: sys_read_def feed_def)
  show ?thesis
    using readOSPmsg_length_check [OF sy rd]
    by (simp add: Let_def MAXBUFFERSIZE_def new_SerialTxRx_def)
qed

subsection \<open>Loops that do not end\<close>

text \<open>
  A set of loop states that the body maps into itself and in which the loop
  condition holds is never left.
\<close>

lemma synchOSPloop_forever:
  assumes inv: "\<And>s. I s \<Longrightarrow> fst s \<noteq> 3 \<and> 0 < fst (snd s) \<and> I (synchOSPiter s)"
    and "I s"
  shows "synchOSPloop s = None"
proof (cases "synchOSPloop s")
  case None
  then show ?thesis .
next
  case (Some r)
  have "\<not> I s"
  proof (rule synchOSPloop.raw_induct [where P = "\<lambda>s r. \<not> I s", OF _ Some])
    fix f :: "synch \<Rightarrow> synch option" and s r
    assume IH: "\<And>s r. f s = Some r \<Longrightarrow> \<not> I s"
    assume body: "(if fst s \<noteq> 3 \<and> fst (snd s) > 0 then f (synchOSPiter s) else Some s) = Some r"
    show "\<not> I s"
    proof
      assume "I s"
      with inv [of s] body have "f (synchOSPiter s) = Some r" and "I (synchOSPiter s)"
        by simp_all
      with IH show False by blast
    qed
  qed
  with assms(2) show ?thesis by contradiction
qed

lemma synchOSPloop_START2_only:
  assumes "0 < n"
  shows "synchOSPloop (1, n, sconst (RdData [START2])) = None"
proof (rule synchOSPloop_forever [where I = "\<lambda>s. s = (1, n, sconst (RdData [START2]))"])
  fix s :: synch
  assume s: "s = (1, n, sconst (RdData [START2]))"
  have "sys_read (sconst (RdData [START2])) 1 = (1, [START2], sconst (RdData [START2]))"
    by (simp add: sys_read_def)
  then have "synchOSPiter s = s"
    by (simp add: s synchOSPiter_def synchOSPstep_def START1_def START2_def)
  with s assms show "fst s \<noteq> 3 \<and> 0 < fst (snd s) \<and> synchOSPiter s = (1, n, sconst (RdData [START2]))"
    by simp
qed simp

lemma synchOSPloop_START1_only:
  assumes "0 < n"
  shows "synchOSPloop (1, n, sconst (RdData [START1])) = None"
proof (rule synchOSPloop_forever
    [where I = "\<lambda>s. (fst s = 1 \<or> fst s = 2) \<and> snd s = (n, sconst (RdData [START1]))"])
  fix s :: synch
  assume s: "(fst s = 1 \<or> fst s = 2) \<and> snd s = (n, sconst (RdData [START1]))"
  have "sys_read (sconst (RdData [START1])) 1 = (1, [START1], sconst (RdData [START1]))"
    by (simp add: sys_read_def)
  then have "synchOSPiter s = (2, n, sconst (RdData [START1]))"
    using s by (cases s) (auto simp: synchOSPiter_def synchOSPstep_def START1_def START2_def)
  with s assms
  show "fst s \<noteq> 3 \<and> 0 < fst (snd s) \<and>
        ((fst (synchOSPiter s) = 1 \<or> fst (synchOSPiter s) = 2)
         \<and> snd (synchOSPiter s) = (n, sconst (RdData [START1])))"
    by auto
qed simp

text \<open>On a line where every read returns 0, the patience runs out.\<close>

lemma synchOSPloop_silence:
  assumes "s \<noteq> 3" and "shd tr = RdData []" and "stl tr = tr"
  shows "synchOSPloop (s, int n, tr) = Some (s, 0, tr)"
proof (induction n)
  case 0
  show ?case by (subst synchOSPloop.simps) simp
next
  case (Suc n)
  have "synchOSPiter (s, int (Suc n), tr) = (s, int n, tr)"
    by (simp add: synchOSPiter_def sys_read_def assms(2,3))
  then have "synchOSPloop (s, int (Suc n), tr) = synchOSPloop (s, int n, tr)"
    using assms(1) by (subst synchOSPloop.simps) simp
  with Suc show ?case by simp
qed

text \<open>
  Bytes without START1 START2, then silence: the loop ends with patience 0,
  not synchronised.
\<close>

lemma synchOSPloop_no_start:
  assumes "\<not> has_start bs" and "s = 1 \<or> s = 2 \<and> take 1 bs \<noteq> [START2]"
    and "shd tr = RdData []" and "stl tr = tr"
  shows "\<exists>s' tr'. synchOSPloop (s, int n, feed bs tr) = Some (s', 0, tr') \<and> s' \<noteq> 3"
  using assms(1,2)
proof (induction bs arbitrary: s n)
  case Nil
  then have s: "s \<noteq> 3" by auto
  have "synchOSPloop (s, int n, feed [] tr) = Some (s, 0, tr)"
    using synchOSPloop_silence [OF s assms(3,4), of n] by (simp add: feed_def)
  with s show ?case by blast
next
  case (Cons b bs)
  show ?case
  proof (cases n)
    case 0
    have "synchOSPloop (s, int n, feed (b # bs) tr) = Some (s, 0, feed (b # bs) tr)"
      using 0 by (subst synchOSPloop.simps) simp
    moreover have "s \<noteq> 3" using Cons.prems(2) by auto
    ultimately show ?thesis by blast
  next
    case (Suc m)
    obtain s1 p1 where step: "synchOSPstep s (int n) b = (s1, p1)"
      by (cases "synchOSPstep s (int n) b")
    have p1: "p1 = int n \<or> p1 = int m"
      using step Suc by (auto simp: synchOSPstep_def split: if_splits)
    have s1: "s1 = 1 \<or> s1 = 2 \<and> b = START1"
      using step Cons.prems(2) by (auto simp: synchOSPstep_def split: if_splits)
    have ns: "\<not> has_start bs"
      using Cons.prems(1) by (cases bs) auto
    have s1': "s1 = 1 \<or> s1 = 2 \<and> take 1 bs \<noteq> [START2]"
      using s1 Cons.prems(1) by (cases bs) auto
    have it: "synchOSPiter (s, int n, feed (b # bs) tr) = (s1, p1, feed bs tr)"
      by (simp add: synchOSPiter_def sys_read_feed_1 step)
    have "s \<noteq> 3" "0 < int n" using Cons.prems(2) Suc by auto
    then have "synchOSPloop (s, int n, feed (b # bs) tr) = synchOSPloop (s1, p1, feed bs tr)"
      by (subst synchOSPloop.simps) (simp add: it)
    moreover have "\<exists>s' tr'. synchOSPloop (s1, p1, feed bs tr) = Some (s', 0, tr') \<and> s' \<noteq> 3"
      using p1 Cons.IH [OF ns s1', of n] Cons.IH [OF ns s1', of m] by auto
    ultimately show ?thesis by simp
  qed
qed

lemma readOSPmsg_no_start:
  assumes "\<not> has_start bs" and "0 \<le> patience"
  shows "\<exists>st'. readOSPmsg patience (st\<lparr>hSerial := feed bs (sconst (RdData []))\<rparr>) = Some (6, st')"
proof -
  have "\<exists>s' tr'. synchOSPloop (1, int (nat patience), feed bs (sconst (RdData []))) = Some (s', 0, tr')
          \<and> s' \<noteq> 3"
    by (rule synchOSPloop_no_start [OF assms(1)]) simp_all
  then obtain s' tr' where "synchOSPloop (1, patience, feed bs (sconst (RdData []))) = Some (s', 0, tr')"
    and "s' \<noteq> 3" using assms(2) by auto
  then show ?thesis
    by (simp add: readOSPmsg_def synchOSPmsg_def)
qed

text \<open>
  C2, evaluated where it fails. The documentation of synchOSPmsg calls
  patience "the maximum number of bytes to skip or unsuccessful reads", and
  the specification promises status 6 after at most 10 units on any line without
  START1 START2. On a line that delivers START2 forever, or START1 forever,
  no byte costs patience (state 1 ignores START2, state 2 ignores START1):
  the loop never ends, and readOSPmsg with patience 10 does not return.
  (Lemma \<open>readOSPmsg_no_start\<close> above is the part that holds: finitely many
  bytes without START1 START2, then reads that return 0, give status 6 with
  the patience used up.)
\<close>

theorem readOSPmsg_marker_only_never_returns:
  "readOSPmsg 10 (st\<lparr>hSerial := sconst (RdData [START2])\<rparr>) = None \<and>
   readOSPmsg 10 (st\<lparr>hSerial := sconst (RdData [START1])\<rparr>) = None"
  by (simp add: readOSPmsg_def synchOSPmsg_def synchOSPloop_START2_only synchOSPloop_START1_only)

lemma payload_loop_forever:
  assumes "hSerial (fst v) = sconst RdError" and "snd v \<le> 0"
  shows "payload_loop v = None"
proof (cases "payload_loop v")
  case None
  then show ?thesis .
next
  case (Some r)
  let ?I = "\<lambda>v :: payload_vars. hSerial (fst v) = sconst RdError \<and> snd v \<le> 0"
  have "\<not> ?I v"
  proof (rule payload_loop.raw_induct [where P = "\<lambda>v r. \<not> ?I v", OF _ Some])
    fix f :: "payload_vars \<Rightarrow> payload_vars option" and v r
    assume IH: "\<And>v r. f v = Some r \<Longrightarrow> \<not> ?I v"
    assume body: "(if fst (payload_read v) \<noteq> 0
         \<and> snd (snd (payload_read v)) < int (payloadLen (fst v)) + 2
      then f (snd (payload_read v))
      else Some (snd (payload_read v))) = Some r"
    show "\<not> ?I v"
    proof
      assume I: "?I v"
      then have rd: "payload_read v = (- 1, (fst v, snd v - 1))"
        by (cases v) (simp add: payload_read_def sys_read_def)
      with I body have "f (fst v, snd v - 1) = Some r" by simp
      from IH [OF this] I show False by simp
    qed
  qed
  with assms show ?thesis by simp
qed

lemma readOSPmsg_cases:
  "readOSPmsg patience st = None
   \<or> (\<exists>s'. readOSPmsg patience st = Some (6, s'))
   \<or> (\<exists>s'. readOSPmsg patience st = Some (4, s'))
   \<or> (\<exists>s'. readOSPmsg patience st = Some (3, s'))
   \<or> (\<exists>s3. readOSPmsg patience st = readOSPpayload s3)"
proof (cases "synchOSPmsg patience (hSerial st)")
  case None
  then show ?thesis by (simp add: readOSPmsg_def)
next
  case (Some a)
  obtain synched tr1 where a: "a = (synched, tr1)" by (cases a)
  obtain nBytesRead data tr2 where rd: "sys_read tr1 2 = (nBytesRead, data, tr2)"
    by (cases "sys_read tr1 2")
  show ?thesis
  proof (cases synched)
    case False
    with Some a show ?thesis by (simp add: readOSPmsg_def)
  next
    case True
    show ?thesis
    proof (cases "nBytesRead = 2")
      case False
      with Some a True rd show ?thesis by (simp add: readOSPmsg_def Let_def)
    next
      case n: True
      let ?st2 = "st\<lparr>hSerial := tr2, paylenBuff := store (paylenBuff st) 0 data\<rparr>"
      let ?st3 = "?st2\<lparr>payloadLen := push_bit 8 (unat (paylenBuff ?st2 0)) OR unat (paylenBuff ?st2 1)\<rparr>"
      have "readOSPmsg patience st =
          (if \<not> (payloadLen ?st3 > 0 \<and> payloadLen ?st3 < MAXBUFFERSIZE - 1 - 2)
           then Some (3, ?st3) else readOSPpayload ?st3)"
        using Some a True rd n by (simp add: readOSPmsg_def Let_def)
      then show ?thesis by (cases "payloadLen ?st3 > 0 \<and> payloadLen ?st3 < MAXBUFFERSIZE - 1 - 2") auto
    qed
  qed
qed

lemma readOSPmsg_not_5: "readOSPmsg patience st \<noteq> Some (5, s')"
  using readOSPmsg_cases [of patience st] readOSPpayload_status [of _ 5 s']
  by auto

text \<open>
  C10. The do-while loop of readOSPmsg is left only when a \<^verbatim>\<open>read\<close> returns 0 or
  when \<open>payloadLen + 2\<close> bytes are stored. A \<^verbatim>\<open>read\<close> that returns -1 takes one
  off \<open>nBytesStored\<close> and the loop goes on. So when, after the start sequence
  and a length in range, every \<^verbatim>\<open>read\<close> fails, readOSPmsg does not return; and
  no run of readOSPmsg returns the documented status 5.
\<close>

theorem readOSPmsg_payload_read_error:
  "payload_loop v =
     (if fst (payload_read v) = 0 \<or> int (payloadLen (fst v)) + 2 \<le> snd (snd (payload_read v))
      then Some (snd (payload_read v)) else payload_loop (snd (payload_read v))) \<and>
   (shd (hSerial st) = RdError \<and> n - 1 < int (payloadLen st) + 2 \<longrightarrow>
      payload_loop (st, n) = payload_loop (st\<lparr>hSerial := stl (hSerial st)\<rparr>, n - 1)) \<and>
   (synchOSPmsg patience (hSerial st) = Some (True, tr1) \<and>
    sys_read tr1 2 = (2, [hi, lo], sconst RdError) \<and>
    0 < unat hi * 256 + unat lo \<and> unat hi * 256 + unat lo < MAXBUFFERSIZE - 3 \<longrightarrow>
      readOSPmsg patience st = None) \<and>
   (\<forall>s'. readOSPmsg patience st \<noteq> Some (5, s'))"
proof -
  have 1: "payload_loop v =
     (if fst (payload_read v) = 0 \<or> int (payloadLen (fst v)) + 2 \<le> snd (snd (payload_read v))
      then Some (snd (payload_read v)) else payload_loop (snd (payload_read v)))"
    by (subst payload_loop.simps) auto
  have 2: "shd (hSerial st) = RdError \<and> n - 1 < int (payloadLen st) + 2 \<longrightarrow>
      payload_loop (st, n) = payload_loop (st\<lparr>hSerial := stl (hSerial st)\<rparr>, n - 1)"
  proof
    assume a: "shd (hSerial st) = RdError \<and> n - 1 < int (payloadLen st) + 2"
    then have "payload_read (st, n) = (- 1, (st\<lparr>hSerial := stl (hSerial st)\<rparr>, n - 1))"
      by (simp add: payload_read_def sys_read_def)
    with a show "payload_loop (st, n) = payload_loop (st\<lparr>hSerial := stl (hSerial st)\<rparr>, n - 1)"
      by (subst payload_loop.simps) simp
  qed
  have 3: "synchOSPmsg patience (hSerial st) = Some (True, tr1) \<and>
    sys_read tr1 2 = (2, [hi, lo], sconst RdError) \<and>
    0 < unat hi * 256 + unat lo \<and> unat hi * 256 + unat lo < MAXBUFFERSIZE - 3 \<longrightarrow>
      readOSPmsg patience st = None"
  proof
    assume a: "synchOSPmsg patience (hSerial st) = Some (True, tr1) \<and>
      sys_read tr1 2 = (2, [hi, lo], sconst RdError) \<and>
      0 < unat hi * 256 + unat lo \<and> unat hi * 256 + unat lo < MAXBUFFERSIZE - 3"
    let ?st3 = "st\<lparr>hSerial := sconst RdError, paylenBuff := store (paylenBuff st) 0 [hi, lo],
                     payloadLen := unat hi * 256 + unat lo\<rparr>"
    from a have sy: "synchOSPmsg patience (hSerial st) = Some (True, tr1)"
      and rd: "sys_read tr1 2 = (2, [hi, lo], sconst RdError)" by simp_all
    have "readOSPmsg patience st = readOSPpayload ?st3"
      unfolding readOSPmsg_synched [OF sy rd] Let_def be16_value using a by auto
    moreover have "payload_loop (?st3, 0) = None"
      by (rule payload_loop_forever) simp_all
    ultimately show "readOSPmsg patience st = None"
      by (simp add: readOSPpayload_def)
  qed
  have 4: "\<forall>s'. readOSPmsg patience st \<noteq> Some (5, s')"
    by (simp add: readOSPmsg_not_5)
  from 1 2 3 4 show ?thesis by (intro conjI)
qed

theorem readOSPmsg_payload_read_error_witness:
  "payload_loop (new_SerialTxRx (sconst RdError), 0) = payload_loop (new_SerialTxRx (sconst RdError), - 1) \<and>
   readOSPmsg 10 (new_SerialTxRx (feed [160, 162, 0, 3] (sconst RdError))) = None"
proof -
  let ?st = "new_SerialTxRx (feed [160, 162, 0, 3] (sconst RdError))"
  let ?e = "new_SerialTxRx (sconst RdError)"
  have sy: "synchOSPmsg 10 (hSerial ?st) = Some (True, feed [0, 3] (sconst RdError))"
    using synchOSPmsg_start [of 10 "[0, 3]" "sconst RdError"]
    by (simp add: new_SerialTxRx_def START1_def START2_def)
  have rd: "sys_read (feed [0, 3] (sconst RdError)) 2 = (2, [0, 3], sconst RdError)"
    by (simp add: sys_read_def feed_def)
  have e: "?e\<lparr>hSerial := stl (hSerial ?e)\<rparr> = ?e"
    by (simp add: new_SerialTxRx_def)
  have "payload_loop (?e, 0) = payload_loop (?e\<lparr>hSerial := stl (hSerial ?e)\<rparr>, 0 - 1)"
    using readOSPmsg_payload_read_error
        [of "(?e, 0)" ?e 0 10 "sconst RdError" 0 0, THEN conjunct2, THEN conjunct1]
    by (simp add: new_SerialTxRx_def)
  then have 1: "payload_loop (?e, 0) = payload_loop (?e, - 1)"
    by (simp only: e) simp
  have 2: "readOSPmsg 10 ?st = None"
    using readOSPmsg_payload_read_error
        [of "(?e, 0)" ?st 0 10 "feed [0, 3] (sconst RdError)" 0 3,
          THEN conjunct2, THEN conjunct2, THEN conjunct1] sy rd
    by (simp add: MAXBUFFERSIZE_def)
  from 1 2 show ?thesis by (rule conjI)
qed

subsection \<open>The checksum, and writing and reading back\<close>

lemma unat_byte_less: "unat (x :: byte) < 256"
  using unsigned_less [of x] by simp

lemma unat_ucast_byte: "unat (ucast (x :: byte) :: uint) = unat x"
  using unat_byte_less [of x] by (simp add: unsigned_ucast_eq take_bit_nat_eq_self)

lemma be16_split_w:
  fixes w :: uint
  assumes "unat w < 65536"
  shows "push_bit 8 (ucast (ucast (drop_bit 8 w) :: byte)) OR ucast (ucast (w AND 0xFF) :: byte) = w"
proof -
  have "unat (take_bit 16 w) = unat w" using assms
    by (simp add: unsigned_take_bit_eq take_bit_nat_eq_self)
  then have w: "take_bit 16 w = w" by (simp add: word_unat_eq_iff)
  have m: "(255 :: uint) = mask 8" by (simp add: mask_eq_exp_minus_1)
  have "push_bit 8 (ucast (ucast (drop_bit 8 w) :: byte)) OR ucast (ucast (w AND mask 8) :: byte) = take_bit 16 w"
    by (rule bit_eqI) (auto simp: bit_simps)
  then show ?thesis by (simp add: w m)
qed

lemma checksum_step_unat:
  fixes c :: uint and x :: byte
  assumes "unat c < 32768"
  shows "unat ((c + ucast x) AND 0x7FFF) = (unat c + unat x) mod 32768"
proof -
  have m: "(0x7FFF :: uint) = mask 15" by (simp add: mask_eq_exp_minus_1)
  have s: "unat (c + ucast x) = unat c + unat x"
    using assms unat_byte_less [of x] by (simp add: unat_word_ariths unat_ucast_byte)
  have a: "(c + ucast x) AND 0x7FFF = take_bit 15 (c + ucast x)"
    unfolding m by (simp add: take_bit_eq_mask)
  have "unat ((c + ucast x) AND 0x7FFF) = unat (take_bit 15 (c + ucast x))"
    by (simp only: a)
  also have "\<dots> = take_bit 15 (unat (c + ucast x))"
    by (rule unsigned_take_bit_eq)
  also have "\<dots> = (unat c + unat x) mod 32768"
    by (simp add: s take_bit_eq_mod)
  finally show ?thesis .
qed

lemma checksum_fold_unat:
  assumes "unat c < 32768" and "(bs :: byte list) \<noteq> []"
  shows "unat (fold (\<lambda>b computedCheck. (computedCheck + ucast b) AND 0x7FFF) bs (c :: uint))
           = (unat c + sum_list (map unat bs)) mod 32768"
  using assms
proof (induction bs arbitrary: c)
  case Nil
  then show ?case by simp
next
  case (Cons x xs)
  let ?c' = "(c + ucast x) AND 0x7FFF"
  have c': "unat ?c' = (unat c + unat x) mod 32768"
    by (rule checksum_step_unat) (rule Cons.prems)
  show ?case
  proof (cases "xs = []")
    case True
    then show ?thesis by (simp add: c')
  next
    case False
    have "unat ?c' < 32768" by (simp add: c')
    from Cons.IH [OF this False] show ?thesis
      by (simp add: c' mod_add_left_eq add.assoc)
  qed
qed

lemma ospChecksum_unat:
  "unat (ospChecksum b bs) =
     (if bs = [] then unat b else (unat b + sum_list (map unat bs)) mod 32768)"
proof (cases "bs = []")
  case True
  then show ?thesis by (simp add: ospChecksum_def unat_ucast_byte)
next
  case False
  have "unat (ucast b :: uint) < 32768"
    using unat_byte_less [of b] by (simp add: unat_ucast_byte)
  from checksum_fold_unat [OF this False] False show ?thesis
    by (simp add: ospChecksum_def unat_ucast_byte)
qed

lemma ospChecksum_bound: "unat (ospChecksum b bs) < 65536"
proof (cases "bs = []")
  case True
  with unat_byte_less [of b] show ?thesis by (simp add: ospChecksum_unat)
next
  case False
  have "(unat b + sum_list (map unat bs)) mod 32768 < 32768" by simp
  then have "(unat b + sum_list (map unat bs)) mod 32768 < 65536" by (rule less_trans) simp
  with False show ?thesis by (simp only: ospChecksum_unat if_False)
qed

lemma sum_mod_differs:
  fixes s x y m :: nat
  assumes "x \<le> s" and "x < m" and "y < m" and "x \<noteq> y"
  shows "(s - x + y) mod m \<noteq> s mod m"
proof
  assume eq: "(s - x + y) mod m = s mod m"
  show False
  proof (cases "x < y")
    case True
    then have "s \<le> s - x + y" using assms(1) by simp
    from mod_eq_dvd_iff_nat [OF this, of m] eq have "m dvd (s - x + y) - s" by simp
    moreover have "(s - x + y) - s = y - x" using assms(1) True by simp
    ultimately have "m dvd y - x" by simp
    then have "m \<le> y - x" using True by (intro dvd_imp_le) simp_all
    with assms(3) show False by simp
  next
    case False
    with assms(4) have yx: "y < x" by simp
    then have "s - x + y \<le> s" using assms(1) by simp
    from mod_eq_dvd_iff_nat [OF this, of m] eq have "m dvd s - (s - x + y)" by simp
    moreover have "s - (s - x + y) = x - y" using assms(1) yx by simp
    ultimately have "m dvd x - y" by simp
    then have "m \<le> x - y" using yx by (intro dvd_imp_le) simp_all
    with assms(2) show False by simp
  qed
qed

text \<open>The checksum of a payload, as both functions compute it.\<close>

lemma payload_checksum_unat:
  assumes "p \<noteq> []"
  shows "unat (ospChecksum (hd p) (tl p)) =
           (if length p = 1 then unat (hd p) else sum_list (map unat p) mod 32768)"
proof -
  obtain b bs where p: "p = b # bs" using assms by (cases p) auto
  show ?thesis by (simp add: p ospChecksum_unat)
qed

lemma ospChecksum_update:
  assumes "p \<noteq> []" and "i < length p" and "b \<noteq> p ! i"
  shows "ospChecksum (hd (p[i := b])) (tl (p[i := b])) \<noteq> ospChecksum (hd p) (tl p)"
proof
  assume "ospChecksum (hd (p[i := b])) (tl (p[i := b])) = ospChecksum (hd p) (tl p)"
  then have eq: "unat (ospChecksum (hd (p[i := b])) (tl (p[i := b]))) = unat (ospChecksum (hd p) (tl p))"
    by simp
  have ne: "unat (p ! i) \<noteq> unat b" using assms(3) by (simp add: word_unat_eq_iff)
  show False
  proof (cases "length p = 1")
    case True
    with assms(2) have i: "i = 0" by simp
    from True obtain x where p: "p = [x]" by (cases p) auto
    from eq ne show False by (simp add: ospChecksum_unat p i)
  next
    case False
    let ?s = "sum_list (map unat p)"
    have le: "unat (p ! i) \<le> ?s"
      using assms(2) by (intro member_le_sum_list) (simp_all add: nth_mem)
    have "sum_list (map unat (p[i := b])) = sum_list ((map unat p)[i := unat b])"
      by (simp add: map_update)
    also have "\<dots> = ?s + unat b - map unat p ! i"
      using assms(2) by (intro sum_list_update) simp
    also have "\<dots> = ?s - unat (p ! i) + unat b"
      using assms(2) le by simp
    finally have s': "sum_list (map unat (p[i := b])) = ?s - unat (p ! i) + unat b" .
    from eq False assms(1) have "(?s - unat (p ! i) + unat b) mod 32768 = ?s mod 32768"
      by (simp add: payload_checksum_unat s')
    moreover have "(?s - unat (p ! i) + unat b) mod 32768 \<noteq> ?s mod 32768"
      using le unat_byte_less [of "p ! i"] unat_byte_less [of b] ne
      by (intro sum_mod_differs) simp_all
    ultimately show False by simp
  qed
qed


lemma stoul_each_length: "stoul_each ts base = Inr bs \<Longrightarrow> length bs = length ts"
  by (induction ts arbitrary: bs) (auto split: sum.splits)

lemma OSPframe_eq:
  "OSPframe len mid args =
     START1 # START2 # of_nat (drop_bit 8 len) # of_nat (len AND 0xFF) # (mid # args)
       @ ucast (drop_bit 8 (ospChecksum mid args)) # ucast (ospChecksum mid args AND 0xFF)
       # [END1, END2]"
  by (simp add: OSPframe_def Let_def)

text \<open>What readOSPmsg makes of the frame that writeOSPcmd builds, whatever its first four bytes.\<close>

lemma readOSPmsg_OSPframe:
  assumes "0 < patience" and "p \<noteq> []" and "length p < MAXBUFFERSIZE - 3"
    and "length q = length p"
  shows "readOSPmsg patience
           (st\<lparr>hSerial := feed
              (START1 # START2 # of_nat (drop_bit 8 (length p)) # of_nat (length p AND 0xFF) # q
                @ ucast (drop_bit 8 (ospChecksum (hd p) (tl p)))
                # ucast (ospChecksum (hd p) (tl p) AND 0xFF) # [END1, END2]) tr\<rparr>) =
         Some (if ospChecksum (hd q) (tl q) \<noteq> ospChecksum (hd p) (tl p) then 1 else 0,
               st\<lparr>hSerial := feed [END1, END2] tr,
                  paylenBuff := store (paylenBuff st) 0
                     [of_nat (drop_bit 8 (length p)), of_nat (length p AND 0xFF)],
                  payBuff := store (payBuff st) 0
                     (q @ [ucast (drop_bit 8 (ospChecksum (hd p) (tl p))),
                           ucast (ospChecksum (hd p) (tl p) AND 0xFF)]),
                  payloadLen := length p\<rparr>)"
proof -
  have len: "push_bit 8 (unat (of_nat (drop_bit 8 (length p)) :: byte))
               OR unat (of_nat (length p AND 0xFF) :: byte) = length q"
    using assms(3,4) by (simp only: assms(4)) (rule be16_join, simp add: MAXBUFFERSIZE_def)
  have ck: "push_bit 8 (ucast (ucast (drop_bit 8 (ospChecksum (hd p) (tl p))) :: byte))
              OR ucast (ucast (ospChecksum (hd p) (tl p) AND 0xFF) :: byte)
            = ospChecksum (hd p) (tl p)"
    by (rule be16_split_w) (rule ospChecksum_bound)
  have q: "q \<noteq> []" "length q < MAXBUFFERSIZE - 3" using assms(2,3,4) by auto
  show ?thesis
    unfolding readOSPmsg_frame_gen [OF assms(1) q len] ck by (simp only: assms(4))
qed

lemma OSPframe_corrupt:
  assumes "p \<noteq> []" and "i < length p"
  shows "(OSPframe (length p) (hd p) (tl p))[4 + i := b] =
           START1 # START2 # of_nat (drop_bit 8 (length p)) # of_nat (length p AND 0xFF) # p[i := b]
             @ ucast (drop_bit 8 (ospChecksum (hd p) (tl p)))
             # ucast (ospChecksum (hd p) (tl p) AND 0xFF) # [END1, END2]"
proof -
  have i: "4 + i = Suc (Suc (Suc (Suc i)))" by simp
  have p: "hd p # tl p = p" using assms(1) by simp
  show ?thesis
    unfolding OSPframe_eq i using assms(2) by (simp add: p list_update_append)
qed

text \<open>
  C4. For a payload \<open>p\<close> with \<open>0 < length p < MAXBUFFERSIZE - 3\<close>, changing one
  byte of \<open>p\<close> changes the checksum; so when byte \<open>i\<close> of the payload of the
  frame built for \<open>p\<close> (index \<open>4 + i\<close> of the frame) is replaced by another value
  and the frame, with the checksum of \<open>p\<close>, is read, readOSPmsg returns 1. The
  witness is the payload 0x81, 2, 3 with checksum 0x86 and its byte 1 set to 3.
\<close>

theorem OSP_single_byte_corruption:
  assumes "0 < patience" and "p \<noteq> []" and "length p < MAXBUFFERSIZE - 3"
    and "i < length p" and "b \<noteq> p ! i"
  shows "ospChecksum (hd (p[i := b])) (tl (p[i := b])) \<noteq> ospChecksum (hd p) (tl p) \<and>
         (\<exists>st'. readOSPmsg patience
                  (st\<lparr>hSerial := feed ((OSPframe (length p) (hd p) (tl p))[4 + i := b]) tr\<rparr>)
                = Some (1, st') \<and> payloadLen st' = length p)"
proof -
  have ne: "ospChecksum (hd (p[i := b])) (tl (p[i := b])) \<noteq> ospChecksum (hd p) (tl p)"
    using assms(2,4,5) by (rule ospChecksum_update)
  have "readOSPmsg patience
          (st\<lparr>hSerial := feed ((OSPframe (length p) (hd p) (tl p))[4 + i := b]) tr\<rparr>)
        = Some (1, st\<lparr>hSerial := feed [END1, END2] tr,
                  paylenBuff := store (paylenBuff st) 0
                     [of_nat (drop_bit 8 (length p)), of_nat (length p AND 0xFF)],
                  payBuff := store (payBuff st) 0
                     (p[i := b] @ [ucast (drop_bit 8 (ospChecksum (hd p) (tl p))),
                           ucast (ospChecksum (hd p) (tl p) AND 0xFF)]),
                  payloadLen := length p\<rparr>)"
    unfolding OSPframe_corrupt [OF assms(2,4)]
    by (subst readOSPmsg_OSPframe [OF assms(1,2,3)]) (simp_all add: ne)
  with ne show ?thesis by simp
qed

theorem OSP_single_byte_corruption_witness:
  "ospChecksum 0x81 [2, 3] = 0x86 \<and> ospChecksum 0x81 [3, 3] \<noteq> 0x86 \<and>
   (\<exists>st'. readOSPmsg 10
      (new_SerialTxRx (feed [0xA0, 0xA2, 0, 3, 0x81, 3, 3, 0, 0x86, 0xB0, 0xB3] (sconst (RdData []))))
        = Some (1, st'))"
proof -
  have c: "ospChecksum 0x81 [2, 3] = 0x86"
    by (simp add: ospChecksum_def)
  have e: "OSPframe (length [0x81, 2, 3 :: byte]) (hd [0x81, 2, 3]) (tl [0x81, 2, 3])
             = OSPframe 3 0x81 [2, 3]"
    by (simp add: numeral_3_eq_3)
  have f: "(OSPframe 3 0x81 [2, 3])[4 + 1 := 3]
           = [0xA0, 0xA2, 0, 3, 0x81, 3, 3, 0, 0x86, 0xB0, 0xB3]"
    by (simp add: OSPframe_def c START1_def START2_def END1_def END2_def)
  have n: "new_SerialTxRx (feed F (sconst (RdData []))) =
           (new_SerialTxRx (sconst (RdData [])))\<lparr>hSerial := feed F (sconst (RdData []))\<rparr>" for F
    by (simp add: new_SerialTxRx_def)
  show ?thesis
    using OSP_single_byte_corruption
      [where patience = 10 and p = "[0x81, 2, 3]" and i = 1 and b = 3
         and st = "new_SerialTxRx (sconst (RdData []))" and tr = "sconst (RdData [])"]
    unfolding e f n by (auto simp: MAXBUFFERSIZE_def c)
qed

lemma store_map_prefix: "map (\<lambda>i. store buf 0 (p @ q) (int i)) [0..<length p] = p"
proof -
  have "map (\<lambda>i. store buf 0 (p @ q) (int i)) [0..<length p] = map (\<lambda>i. p ! i) [0..<length p]"
    by (rule map_cong [OF refl]) (simp add: store_nth nth_append)
  then show ?thesis by (simp add: map_nth)
qed

lemma sys_write_all: "length buf \<le> k \<Longrightarrow> sys_write (WrAccept k) buf = int (length buf)"
  by (simp add: sys_write_def)

lemma OSPframe_length: "length (OSPframe len mid args) = length args + 9"
  by (simp add: OSPframe_def Let_def)

text \<open>Writing a command and reading the frame back, for any argument text that parses.\<close>

lemma writeOSPcmd_readOSPmsg:
  assumes "stoul_each (get_tokens [] cmdArgs) base = Inr args"
    and "length args + 10 \<le> MAXBUFFERSIZE"
    and "0 < patience" and "length args + 9 \<le> k"
  shows "\<exists>st'. writeOSPcmd mid cmdArgs base (WrAccept k) True
                 = Inr (OSPframe (length args + 1) (word_of_int mid) args) \<and>
               readOSPmsg patience
                 (st\<lparr>hSerial := feed (OSPframe (length args + 1) (word_of_int mid) args) tr\<rparr>)
                 = Some (0, st') \<and>
               payloadLen st' = length args + 1 \<and>
               map (\<lambda>i. payBuff st' (int i)) [0..<payloadLen st'] = word_of_int mid # args \<and>
               payBuff st' 0 = word_of_int mid \<and>
               hSerial st' = feed [END1, END2] tr"
proof -
  let ?p = "word_of_int mid # args :: byte list"
  let ?frame = "OSPframe (length args + 1) (word_of_int mid) args"
  let ?ck = "ospChecksum (word_of_int mid) args"
  let ?st' = "st\<lparr>hSerial := feed [END1, END2] tr,
                  paylenBuff := store (paylenBuff st) 0
                     [of_nat (drop_bit 8 (length ?p)), of_nat (length ?p AND 0xFF)],
                  payBuff := store (payBuff st) 0
                     (?p @ [ucast (drop_bit 8 ?ck), ucast (?ck AND 0xFF)]),
                  payloadLen := length ?p\<rparr>"
  have len: "length (get_tokens [] cmdArgs) = length args"
    using stoul_each_length [OF assms(1)] by simp
  have fits: "length args + 10 < 2 ^ 32"
    using assms(2) by (simp add: MAXBUFFERSIZE_def)
  have tk: "take (MAXBUFFERSIZE - 4) (get_tokens [] cmdArgs) = get_tokens [] cmdArgs"
    using assms(2) len by simp
  have w: "writeOSPcmd mid cmdArgs base (WrAccept k) True = Inr ?frame"
    using assms(2,4) fits
    by (simp add: writeOSPcmd_def Let_def len tk assms(1) sys_write_all OSPframe_length)
  have "readOSPmsg patience
          (st\<lparr>hSerial := feed
              (START1 # START2 # of_nat (drop_bit 8 (length ?p)) # of_nat (length ?p AND 0xFF) # ?p
                @ ucast (drop_bit 8 (ospChecksum (hd ?p) (tl ?p)))
                # ucast (ospChecksum (hd ?p) (tl ?p) AND 0xFF) # [END1, END2]) tr\<rparr>) =
         Some (if ospChecksum (hd ?p) (tl ?p) \<noteq> ospChecksum (hd ?p) (tl ?p) then 1 else 0,
               st\<lparr>hSerial := feed [END1, END2] tr,
                  paylenBuff := store (paylenBuff st) 0
                     [of_nat (drop_bit 8 (length ?p)), of_nat (length ?p AND 0xFF)],
                  payBuff := store (payBuff st) 0
                     (?p @ [ucast (drop_bit 8 (ospChecksum (hd ?p) (tl ?p))),
                           ucast (ospChecksum (hd ?p) (tl ?p) AND 0xFF)]),
                  payloadLen := length ?p\<rparr>)"
    using assms(2) by (intro readOSPmsg_OSPframe assms(3)) (simp_all add: MAXBUFFERSIZE_def)
  then have r: "readOSPmsg patience (st\<lparr>hSerial := feed ?frame tr\<rparr>) = Some (0, ?st')"
    by (simp add: OSPframe_eq)
  have m: "map (\<lambda>i. payBuff ?st' (int i)) [0..<payloadLen ?st'] = ?p"
  proof -
    have pb: "payBuff ?st' = store (payBuff st) 0 (?p @ [ucast (drop_bit 8 ?ck), ucast (?ck AND 0xFF)])"
      by simp
    have pl: "payloadLen ?st' = length ?p" by simp
    show ?thesis unfolding pb pl by (rule store_map_prefix)
  qed
  have z: "payBuff ?st' 0 = word_of_int mid"
    by (simp add: store_apply)
  from w r m z show ?thesis
    by (intro exI [of _ ?st']) simp
qed

lemma below_16:
  assumes "(a :: nat) < 16"
  shows "a \<in> {0, 1, 2, 3, 4, 5, 6, 7, 8, 9, 10, 11, 12, 13, 14, 15}"
  using assms by simp arith

lemma hex_digit_code:
  assumes "a < 16"
  shows "digit_of (of_char (digit_char a)) = Some a
         \<and> \<not> isspace (of_char (digit_char a))
         \<and> of_char (digit_char a) \<noteq> (43 :: nat) \<and> of_char (digit_char a) \<noteq> (45 :: nat)
         \<and> of_char (digit_char a) \<noteq> (120 :: nat) \<and> of_char (digit_char a) \<noteq> (88 :: nat)
         \<and> of_char (digit_char a) \<noteq> (0 :: nat) \<and> digit_char a \<noteq> CHR 0x0D
         \<and> digit_char a \<noteq> CHR 0x00"
  using below_16 [OF assms]
  by (elim insertE emptyE) (simp_all add: digit_char_def digit_of_def isspace_def)

lemma strtoul_two_hex_digits:
  assumes "a < 16" and "b < 16"
  shows "strtoul [of_char (digit_char a), of_char (digit_char b)] 16 = Some (False, a * 16 + b)"
  using hex_digit_code [OF assms(1)] hex_digit_code [OF assms(2)] assms
  by (simp add: strtoul_def Let_def)

lemma fmt_02X_byte:
  assumes "n < 256"
  shows "fmt_02X n = [digit_char (n div 16), digit_char (n mod 16)]"
proof (cases "n < 16")
  case True
  then show ?thesis by (simp add: fmt_02X_def digit_char_def)
next
  case False
  with assms have "n div 16 < 16" by simp
  with False show ?thesis by (simp add: fmt_02X_def)
qed

lemma stoul_fmt_02X:
  assumes "n < 256"
  shows "stoul (fmt_02X n) 16 = Inr n"
proof -
  have "n div 16 < 16" "n mod 16 < 16" using assms by simp_all
  from strtoul_two_hex_digits [OF this] assms show ?thesis
    by (simp add: stoul_def fmt_02X_byte [OF assms])
qed

lemma get_tokens_token:
  assumes "\<forall>c \<in> set t. \<not> isspace (of_char c)" and "cur @ t \<noteq> []"
  shows "get_tokens cur (t @ CHR '' '' # rest) = (cur @ t) # get_tokens [] rest"
  using assms
proof (induction t arbitrary: cur)
  case Nil
  then show ?case by (simp add: isspace_def)
next
  case (Cons c t)
  from Cons.prems have "get_tokens cur ((c # t) @ CHR '' '' # rest)
      = get_tokens (cur @ [c]) (t @ CHR '' '' # rest)" by simp
  also have "\<dots> = ((cur @ [c]) @ t) # get_tokens [] rest"
    using Cons.prems by (intro Cons.IH) simp_all
  finally show ?case by simp
qed

lemma fmt_02X_no_space:
  assumes "n < 256"
  shows "\<forall>c \<in> set (fmt_02X n). \<not> isspace (of_char c)"
proof -
  have "n div 16 < 16" "n mod 16 < 16" using assms by simp_all
  then show ?thesis
    using hex_digit_code [of "n div 16"] hex_digit_code [of "n mod 16"]
    by (simp add: fmt_02X_byte [OF assms])
qed

lemma get_tokens_hex_args: "get_tokens [] (hex_args bs) = map (\<lambda>b. fmt_02X (unat b)) bs"
proof (induction bs)
  case Nil
  then show ?case by (simp add: hex_args_def)
next
  case (Cons b bs)
  have "get_tokens [] (fmt_02X (unat b) @ CHR '' '' # hex_args bs)
          = ([] @ fmt_02X (unat b)) # get_tokens [] (hex_args bs)"
  proof (rule get_tokens_token)
    show "\<forall>c \<in> set (fmt_02X (unat b)). \<not> isspace (of_char c)"
      by (rule fmt_02X_no_space) (rule unat_byte_less)
    show "[] @ fmt_02X (unat b) \<noteq> []"
      by (simp add: fmt_02X_byte unat_byte_less)
  qed
  then show ?case by (simp add: hex_args_def Cons.IH [unfolded hex_args_def])
qed

lemma stoul_each_hex: "stoul_each (map (\<lambda>b. fmt_02X (unat b)) bs) 16 = Inr bs"
proof (induction bs)
  case Nil
  then show ?case by simp
next
  case (Cons b bs)
  have "unat b AND 255 = unat b"
    using unat_byte_less [of b] by (simp add: mask8 take_bit_nat_eq_self flip: take_bit_eq_mask)
  then show ?case
    by (simp add: Cons.IH stoul_fmt_02X unat_byte_less)
qed

text \<open>
  C1, amended. writeOSPcmd refuses a command of more than 2042 tokens, so the
  round trip is stated for payloads of up to 2043 bytes
  (\<open>length args + 10 \<le> MAXBUFFERSIZE\<close>): when the tokens of the argument text
  parse to the bytes \<open>args\<close>, the port takes the whole frame and \<^verbatim>\<open>tcdrain\<close>
  succeeds, writeOSPcmd emits the frame of the payload \<open>mid # args\<close>, and
  readOSPmsg, on a line that has this frame ready, returns 0 with
  \<open>payloadLen\<close> the payload length, the payload in \<open>payBuff\<close> from index 0, the
  message id in \<open>payBuff[0]\<close>, and the two end bytes left unread. Every list of
  argument bytes is the parse of some text (\<open>hex_args\<close>). The counterexample
  is the payload of 2048 zero bytes: its length is below \<open>MAXBUFFERSIZE - 3\<close>,
  and writeOSPcmd throws.
\<close>

theorem OSP_roundtrip:
  "(stoul_each (get_tokens [] cmdArgs) base = Inr args \<and> length args + 10 \<le> MAXBUFFERSIZE
      \<and> 0 < patience \<and> length args + 9 \<le> k \<longrightarrow>
    (\<exists>st'. writeOSPcmd mid cmdArgs base (WrAccept k) True
                 = Inr (OSPframe (length args + 1) (word_of_int mid) args) \<and>
            readOSPmsg patience
                 (st\<lparr>hSerial := feed (OSPframe (length args + 1) (word_of_int mid) args) tr\<rparr>)
                 = Some (0, st') \<and>
            payloadLen st' = length args + 1 \<and>
            map (\<lambda>i. payBuff st' (int i)) [0..<payloadLen st'] = word_of_int mid # args \<and>
            payBuff st' 0 = word_of_int mid \<and>
            hSerial st' = feed [END1, END2] tr)) \<and>
   stoul_each (get_tokens [] (hex_args bs)) 16 = Inr bs"
proof (rule conjI)
  show "stoul_each (get_tokens [] (hex_args bs)) 16 = Inr bs"
    by (simp only: get_tokens_hex_args stoul_each_hex)
  show "stoul_each (get_tokens [] cmdArgs) base = Inr args \<and> length args + 10 \<le> MAXBUFFERSIZE
      \<and> 0 < patience \<and> length args + 9 \<le> k \<longrightarrow>
    (\<exists>st'. writeOSPcmd mid cmdArgs base (WrAccept k) True
                 = Inr (OSPframe (length args + 1) (word_of_int mid) args) \<and>
            readOSPmsg patience
                 (st\<lparr>hSerial := feed (OSPframe (length args + 1) (word_of_int mid) args) tr\<rparr>)
                 = Some (0, st') \<and>
            payloadLen st' = length args + 1 \<and>
            map (\<lambda>i. payBuff st' (int i)) [0..<payloadLen st'] = word_of_int mid # args \<and>
            payBuff st' 0 = word_of_int mid \<and>
            hSerial st' = feed [END1, END2] tr)"
    using writeOSPcmd_readOSPmsg
      [where cmdArgs = cmdArgs and base = base and args = args and patience = patience
         and k = k and mid = mid and st = st and tr = tr]
    by blast
qed

theorem OSP_roundtrip_witness:
  "writeOSPcmd 0x81 ''02 03'' 16 (WrAccept 11) True
     = Inr [0xA0, 0xA2, 0, 3, 0x81, 2, 3, 0, 0x86, 0xB0, 0xB3] \<and>
   (\<exists>st'. readOSPmsg 10
      (new_SerialTxRx (feed [0xA0, 0xA2, 0, 3, 0x81, 2, 3, 0, 0x86, 0xB0, 0xB3] (sconst (RdData []))))
        = Some (0, st') \<and> payloadLen st' = 3 \<and>
      map (\<lambda>i. payBuff st' (int i)) [0..<payloadLen st'] = [0x81, 2, 3])"
proof -
  have t: "get_tokens [] ''02 03'' = [''02'', ''03'']"
    by (simp add: isspace_def)
  have s: "stoul ''02'' 16 = Inr 2" "stoul ''03'' 16 = Inr 3"
    by (simp_all add: stoul_def strtoul_def digit_of_def isspace_def)
  have a: "stoul_each (get_tokens [] ''02 03'') 16 = Inr [2, 3]"
    unfolding t by (simp add: s)
  have c: "ospChecksum 0x81 [2, 3] = 0x86"
    by (simp add: ospChecksum_def)
  have l: "length [2, 3 :: byte] + 1 = 3" by simp
  have f: "OSPframe (length [2, 3 :: byte] + 1) (word_of_int 0x81) [2, 3]
             = [0xA0, 0xA2, 0, 3, 0x81, 2, 3, 0, 0x86, 0xB0, 0xB3]"
    unfolding l by (simp add: OSPframe_def c START1_def START2_def END1_def END2_def)
  have n: "new_SerialTxRx (feed F (sconst (RdData []))) =
           (new_SerialTxRx (sconst (RdData [])))\<lparr>hSerial := feed F (sconst (RdData []))\<rparr>" for F
    by (simp add: new_SerialTxRx_def)
  show ?thesis
    using OSP_roundtrip
      [where cmdArgs = "''02 03''" and base = 16 and args = "[2, 3]" and patience = 10
         and k = 11 and mid = "0x81" and st = "new_SerialTxRx (sconst (RdData []))"
         and tr = "sconst (RdData [])", THEN conjunct1] a
    unfolding f n by (auto simp: MAXBUFFERSIZE_def)
qed

theorem OSP_roundtrip_counterexample:
  "length (0 # replicate 2047 (0 :: byte)) < MAXBUFFERSIZE - 3 \<and>
   writeOSPcmd 0 (hex_args (replicate 2047 0)) 16 (WrAccept 4096) True = Inl CmdTooLong"
  by (simp add: writeOSPcmd_def get_tokens_hex_args MAXBUFFERSIZE_def)

lemma stoul_each_error:
  "stoul_each ts base = Inl e \<Longrightarrow> e = InvalidArgument \<or> e = OutOfRange"
  by (induction ts) (auto simp: stoul_def split: sum.splits option.splits prod.splits if_splits)

lemma writeOSPcmd_too_long_iff:
  "(writeOSPcmd mid cmdArgs base port drained = Inl CmdTooLong)
     = (MAXBUFFERSIZE < (2 + 2 + 1 + (1 + length (get_tokens [] cmdArgs)) mod 2 ^ 32 + 2 + 2) mod 2 ^ 32)"
proof (cases "MAXBUFFERSIZE
    < (2 + 2 + 1 + (1 + length (get_tokens [] cmdArgs)) mod 2 ^ 32 + 2 + 2) mod 2 ^ 32")
  case True
  then show ?thesis by (simp add: writeOSPcmd_def Let_def)
next
  case False
  have "writeOSPcmd mid cmdArgs base port drained \<noteq> Inl CmdTooLong"
  proof (cases "stoul_each (take (MAXBUFFERSIZE - 4) (get_tokens [] cmdArgs)) base")
    case (Inl e)
    with False stoul_each_error [OF Inl] show ?thesis
      by (auto simp: writeOSPcmd_def Let_def)
  next
    case (Inr args)
    with False show ?thesis by (simp add: writeOSPcmd_def Let_def)
  qed
  with False show ?thesis by simp
qed

text \<open>
  C6, evaluated where it fails. The sum in line 279 counts the message id
  twice (the 1, and again in \<open>payloadLen = 1 + tokens.size()\<close>), and it is
  computed in \<^verbatim>\<open>unsigned int\<close>: writeOSPcmd throws "too long" exactly when the
  wrapped sum exceeds \<open>MAXBUFFERSIZE\<close>, which for fewer than \<open>2 ^ 32 - 10\<close> tokens
  is when \<open>10 + tokenCount\<close> exceeds \<open>MAXBUFFERSIZE\<close>. With 2043 tokens the
  frame has 2 + 2 + 1 + 2043 + 2 + 2 = 2052 bytes, which does not exceed
  \<open>MAXBUFFERSIZE\<close>, and writeOSPcmd throws all the same.
\<close>

theorem writeOSPcmd_too_long_threshold:
  "(writeOSPcmd mid cmdArgs base port drained = Inl CmdTooLong)
     = (MAXBUFFERSIZE < (2 + 2 + 1 + (1 + length (get_tokens [] cmdArgs)) mod 2 ^ 32 + 2 + 2) mod 2 ^ 32) \<and>
   (length (get_tokens [] cmdArgs) < 2 ^ 32 - 10 \<longrightarrow>
      (writeOSPcmd mid cmdArgs base port drained = Inl CmdTooLong)
        = (MAXBUFFERSIZE < 10 + length (get_tokens [] cmdArgs))) \<and>
   length (get_tokens [] (hex_args (replicate 2043 0))) = 2043 \<and>
   2 + 2 + 1 + 2043 + 2 + 2 \<le> MAXBUFFERSIZE \<and>
   writeOSPcmd mid (hex_args (replicate 2043 0)) 16 port drained = Inl CmdTooLong"
proof -
  have 1: "(writeOSPcmd mid cmdArgs base port drained = Inl CmdTooLong)
     = (MAXBUFFERSIZE < (2 + 2 + 1 + (1 + length (get_tokens [] cmdArgs)) mod 2 ^ 32 + 2 + 2) mod 2 ^ 32)"
    by (rule writeOSPcmd_too_long_iff)
  have 2: "length (get_tokens [] cmdArgs) < 2 ^ 32 - 10 \<longrightarrow>
      (writeOSPcmd mid cmdArgs base port drained = Inl CmdTooLong)
        = (MAXBUFFERSIZE < 10 + length (get_tokens [] cmdArgs))"
  proof
    assume n: "length (get_tokens [] cmdArgs) < 2 ^ 32 - 10"
    then have "(2 + 2 + 1 + (1 + length (get_tokens [] cmdArgs)) mod 2 ^ 32 + 2 + 2) mod 2 ^ 32
                 = 10 + length (get_tokens [] cmdArgs)"
      by simp
    with 1 show "(writeOSPcmd mid cmdArgs base port drained = Inl CmdTooLong)
        = (MAXBUFFERSIZE < 10 + length (get_tokens [] cmdArgs))"
      by (simp only:)
  qed
  have 3: "length (get_tokens [] (hex_args (replicate 2043 0))) = 2043"
    by (simp add: get_tokens_hex_args)
  have 4: "2 + 2 + 1 + 2043 + 2 + 2 \<le> MAXBUFFERSIZE"
    by (simp add: MAXBUFFERSIZE_def)
  have 5: "writeOSPcmd mid (hex_args (replicate 2043 0)) 16 port drained = Inl CmdTooLong"
    by (simp add: writeOSPcmd_def get_tokens_hex_args MAXBUFFERSIZE_def)
  from 1 2 3 4 5 show ?thesis by (intro conjI)
qed

theorem writeOSPcmd_too_long_threshold_witness:
  "length (get_tokens [] (hex_args (replicate 2043 0))) < 2 ^ 32 - 10 \<and>
   \<not> MAXBUFFERSIZE < 2 + 2 + 1 + length (get_tokens [] (hex_args (replicate 2043 0))) + 2 + 2 \<and>
   writeOSPcmd 0 (hex_args (replicate 2043 0)) 16 (WrAccept 4096) True = Inl CmdTooLong"
proof -
  have n: "length (get_tokens [] (hex_args (replicate 2043 0))) = 2043"
    by (simp add: get_tokens_hex_args)
  show ?thesis
    using writeOSPcmd_too_long_threshold
      [where cmdArgs = "hex_args (replicate 2043 0)" and mid = 0 and base = 16
         and port = "WrAccept 4096" and drained = True, THEN conjunct2, THEN conjunct1]
    unfolding n by (simp add: MAXBUFFERSIZE_def)
qed

subsection \<open>NMEA: reading a line and writing a command\<close>

lemma synchNMEAloop_start:
  assumes "0 < p"
  shows "synchNMEAloop (1, p, feed (LF # DOLAR # bs) tr) = Some (3, p, feed bs tr)"
proof -
  have "synchNMEAloop (1, p, feed (LF # DOLAR # bs) tr) = synchNMEAloop (2, p, feed (DOLAR # bs) tr)"
    using assms
    by (subst synchNMEAloop.simps) (simp add: synchNMEAiter_def sys_read_feed_1 synchNMEAstep_def)
  also have "\<dots> = synchNMEAloop (3, p, feed bs tr)"
    using assms
    by (subst synchNMEAloop.simps)
      (simp add: synchNMEAiter_def sys_read_feed_1 synchNMEAstep_def LF_def DOLAR_def)
  also have "\<dots> = Some (3, p, feed bs tr)"
    by (subst synchNMEAloop.simps) simp
  finally show ?thesis .
qed

lemma synchNMEAmsg_start:
  "0 < p \<Longrightarrow> synchNMEAmsg p (feed (LF # DOLAR # bs) tr) = Some (True, feed bs tr)"
  by (simp add: synchNMEAmsg_def synchNMEAloop_start)

lemma readNMEAloop_line:
  assumes "hSerial st = feed (line @ CR # rest) tr" and "CR \<notin> set line"
    and "payloadLen st + length line \<le> MAXBUFFERSIZE - 1"
  shows "readNMEAloop st =
           on_CR (st\<lparr>hSerial := feed rest tr,
                      payBuff := store (payBuff st) (int (payloadLen st)) (line @ [CR]),
                      payloadLen := payloadLen st + length line\<rparr>)"
  using assms
proof (induction line arbitrary: st)
  case Nil
  have rd: "nmea_read st = (1, st\<lparr>hSerial := feed rest tr,
                                  payBuff := (payBuff st)(int (payloadLen st) := CR)\<rparr>)"
    using Nil.prems(1) by (simp add: nmea_read_def sys_read_feed_1)
  show ?case
    by (subst readNMEAloop.simps) (simp add: rd Let_def)
next
  case (Cons c line)
  let ?st1 = "st\<lparr>hSerial := feed (line @ CR # rest) tr,
                   payBuff := (payBuff st)(int (payloadLen st) := c)\<rparr>"
  have rd: "nmea_read st = (1, ?st1)"
    using Cons.prems(1) by (simp add: nmea_read_def sys_read_feed_1)
  have c: "c \<noteq> CR" using Cons.prems(2) by auto
  have k: "payloadLen st < MAXBUFFERSIZE - 1" using Cons.prems(3) by simp
  have "readNMEAloop st = readNMEAloop (?st1\<lparr>payloadLen := payloadLen ?st1 + 1\<rparr>)"
    using c k by (subst readNMEAloop.simps) (simp add: rd Let_def)
  also have "\<dots> = on_CR ((?st1\<lparr>payloadLen := payloadLen ?st1 + 1\<rparr>)
      \<lparr>hSerial := feed rest tr,
        payBuff := store (payBuff (?st1\<lparr>payloadLen := payloadLen ?st1 + 1\<rparr>))
                     (int (payloadLen (?st1\<lparr>payloadLen := payloadLen ?st1 + 1\<rparr>))) (line @ [CR]),
        payloadLen := payloadLen (?st1\<lparr>payloadLen := payloadLen ?st1 + 1\<rparr>) + length line\<rparr>)"
    using Cons.prems by (intro Cons.IH) simp_all
  also have "\<dots> = on_CR (st\<lparr>hSerial := feed rest tr,
                      payBuff := store (payBuff st) (int (payloadLen st)) ((c # line) @ [CR]),
                      payloadLen := payloadLen st + length (c # line)\<rparr>)"
    by (simp add: add.commute)
  finally show ?case .
qed

lemma readNMEAmsg_synched:
  assumes "synchNMEAmsg patience (hSerial st) = Some (True, feed (line @ CR # rest) tr)"
    and "CR \<notin> set line" and "length line \<le> MAXBUFFERSIZE - 1"
  shows "readNMEAmsg patience st =
           (case on_CR (st\<lparr>hSerial := feed rest tr,
                            payBuff := store (payBuff st) 0 (line @ [CR]),
                            payloadLen := length line\<rparr>) of
              (returnValue, st1) \<Rightarrow>
                if returnValue = 0 then Some (readNMEAcheck st1, st1) else Some (returnValue, st1))"
proof -
  have "readNMEAloop (st\<lparr>payloadLen := 0, hSerial := feed (line @ CR # rest) tr\<rparr>) =
          on_CR (st\<lparr>hSerial := feed rest tr,
                      payBuff := store (payBuff st) 0 (line @ [CR]),
                      payloadLen := length line\<rparr>)"
    using assms(2,3) by (subst readNMEAloop_line [where line = line and rest = rest and tr = tr]) simp_all
  then show ?thesis
    using assms(1) by (simp add: readNMEAmsg_def Let_def)
qed

text \<open>
  C8. When the synchronisation has found line feed and dollar and the line
  then has fewer than 5 bytes, none of them a carriage return, followed by a
  carriage return, readNMEAmsg returns 2. The witness is the input
  \<^verbatim>\<open>\n$ABC\r\<close>.
\<close>

theorem readNMEAmsg_too_short:
  assumes "synchNMEAmsg patience (hSerial st) = Some (True, feed (line @ CR # rest) tr)"
    and "CR \<notin> set line" and "length line < 5"
  shows "readNMEAmsg patience st =
           Some (2, st\<lparr>hSerial := feed rest tr,
                       payBuff := (store (payBuff st) 0 (line @ [CR]))(int (length line) := 0),
                       payloadLen := length line\<rparr>)"
proof -
  have "length line \<le> MAXBUFFERSIZE - 1" using assms(3) by (simp add: MAXBUFFERSIZE_def)
  from readNMEAmsg_synched [OF assms(1,2) this] assms(3) show ?thesis
    by (simp add: on_CR_def Let_def)
qed

theorem readNMEAmsg_too_short_witness:
  "readNMEAmsg 10 (new_SerialTxRx (feed (LF # DOLAR # map of_char ''ABC'' @ [CR]) (sconst (RdData []))))
     = Some (2, \<lparr>hSerial = sconst (RdData []), paylenBuff = (\<lambda>i. 0),
                 payBuff = (store (\<lambda>i. 0) 0 (map of_char ''ABC'' @ [CR]))(3 := 0),
                 payloadLen = 3\<rparr>)"
proof -
  let ?tr = "sconst (RdData [])"
  let ?st = "new_SerialTxRx (feed (LF # DOLAR # map of_char ''ABC'' @ [CR]) ?tr)"
  have sy: "synchNMEAmsg 10 (hSerial ?st) = Some (True, feed (map of_char ''ABC'' @ CR # []) ?tr)"
    using synchNMEAmsg_start [of 10 "map of_char ''ABC'' @ [CR]" ?tr]
    by (simp add: new_SerialTxRx_def)
  have nc: "CR \<notin> set (map of_char ''ABC'')"
    by (simp add: CR_def)
  show ?thesis
    using readNMEAmsg_too_short [OF sy nc]
    by (simp add: new_SerialTxRx_def feed_def)
qed

lemma unat_of_char_byte: "unat (of_char c :: byte) = of_char c"
proof -
  have "(of_char c :: byte) = of_nat (of_char c)" by (simp add: of_nat_of_char)
  then have "unat (of_char c :: byte) = take_bit 8 (of_char c :: nat)"
    by (simp only: unsigned_of_nat) simp
  then show ?thesis by (simp add: take_bit_eq_mod)
qed

lemma nmea_fold_ucast:
  "fold (\<lambda>b computedCheck. computedCheck XOR ucast b) bs (ucast (x :: byte) :: uint)
     = ucast (fold (\<lambda>b c. c XOR b) bs x)"
proof (induction bs arbitrary: x)
  case Nil
  then show ?case by simp
next
  case (Cons b bs)
  have "(ucast x :: uint) XOR ucast b = ucast (x XOR b)"
    by (rule bit_eqI) (auto simp: bit_simps)
  then show ?case by (simp add: Cons.IH)
qed

lemma nmeaChecksum_less: "unat (nmeaChecksum b bs) < 256"
  by (simp add: nmeaChecksum_def nmea_fold_ucast unat_ucast_byte unat_byte_less)









lemma fmt_3d_field:
  assumes "0 \<le> mid" and "mid \<le> 999"
  shows "fmt_3d mid =
     (if nat mid < 10 then [CHR '' '', CHR '' '', digit_char (nat mid)]
      else if nat mid < 100 then [CHR '' '', digit_char (nat mid div 10), digit_char (nat mid mod 10)]
      else [digit_char (nat mid div 100), digit_char (nat mid div 10 mod 10),
            digit_char (nat mid mod 10)])"
proof -
  let ?n = "nat mid"
  have n: "?n < 1000" using assms by simp
  consider "?n < 10" | "10 \<le> ?n" "?n < 100" | "100 \<le> ?n" by linarith
  then have "numeral_of 10 ?n =
     (if ?n < 10 then [digit_char ?n]
      else if ?n < 100 then [digit_char (?n div 10), digit_char (?n mod 10)]
      else [digit_char (?n div 100), digit_char (?n div 10 mod 10), digit_char (?n mod 10)])"
  proof cases
    case 1
    then show ?thesis by simp
  next
    case 2
    then have "?n div 10 < 10" by simp
    with 2 show ?thesis by simp
  next
    case 3
    have a: "\<not> ?n div 10 < 10" using 3 by simp
    have b: "?n div 10 div 10 < 10" using n by simp
    have c: "?n div 10 div 10 = ?n div 100" by (simp add: div_mult2_eq)
    from 3 a b show ?thesis
      by (subst numeral_of.simps, subst numeral_of.simps [of 10 "?n div 10"]) (simp add: c)
  qed
  with assms(1) show ?thesis
    by (simp add: fmt_3d_def Let_def numeral_2_eq_2)
qed

lemma c_str_no_NUL: "CHR 0x00 \<notin> set s \<Longrightarrow> c_str s = s"
  by (auto simp: c_str_def takeWhile_eq_all_conv)

lemma nmea_fold_unat:
  "unat (fold (\<lambda>b computedCheck. computedCheck XOR ucast b) (map of_char cs :: byte list) (w :: uint))
     = fold (\<lambda>c a. a XOR of_char c) cs (unat w)"
proof (induction cs arbitrary: w)
  case Nil
  then show ?case by simp
next
  case (Cons c cs)
  have "unat (w XOR ucast (of_char c :: byte)) = unat w XOR of_char c"
    by (simp add: unsigned_xor_eq unat_ucast_byte unat_of_char_byte)
  then show ?case by (simp add: Cons.IH)
qed

lemma nmeaChecksum_text:
  "unat (nmeaChecksum (of_char c) (map of_char cs)) = fold (\<lambda>c a. a XOR of_char c) (c # cs) (0 :: nat)"
  by (simp add: nmeaChecksum_def nmea_fold_unat unat_ucast_byte unat_of_char_byte)

text \<open>
  C7, amended. \<^verbatim>\<open>sprintf\<close> with \<^verbatim>\<open>%3d\<close> pads with spaces, not zeros. For
  \<open>0 \<le> mid \<le> 999\<close>, an argument text without NUL that fits the buffer, a port
  that takes the whole line and a \<^verbatim>\<open>tcdrain\<close> that succeeds, writeNMEAcmd emits
  \<^verbatim>\<open>$PSRF\<close>, then \<open>mid\<close> in decimal right-aligned in 3 characters and padded
  with spaces (three digits from 100 on), a comma, the argument text as it
  is, a star, the XOR of all characters after the dollar as two upper-case
  hexadecimal digits, carriage return and line feed. The counterexample is
  \<open>mid = 5\<close>: the line starts with \<^verbatim>\<open>$PSRF  5,\<close>, not with \<^verbatim>\<open>$PSRF005,\<close>.
\<close>

theorem writeNMEAcmd_frame:
  assumes "0 \<le> mid" and "mid \<le> 999" and "CHR 0x00 \<notin> set cmdArgs"
    and "length cmdArgs + 15 \<le> MAXBUFFERSIZE" and "length cmdArgs + 14 \<le> k"
  shows "let n = nat mid;
             field = (if n < 10 then [CHR '' '', CHR '' '', digit_char n]
                      else if n < 100 then [CHR '' '', digit_char (n div 10), digit_char (n mod 10)]
                      else [digit_char (n div 100), digit_char (n div 10 mod 10),
                            digit_char (n mod 10)]);
             x = fold (\<lambda>c a. a XOR of_char c) (''PSRF'' @ field @ '','' @ cmdArgs) (0 :: nat)
         in x < 256 \<and>
            writeNMEAcmd mid cmdArgs (WrAccept k) True =
              Inr (''$PSRF'' @ field @ '','' @ cmdArgs @ ''*''
                   @ [digit_char (x div 16), digit_char (x mod 16)] @ [CHR 0x0D, CHR 0x0A])"
proof -
  let ?field = "fmt_3d mid"
  let ?buf2 = "(''$PSRF'' @ ?field @ '','') @ cmdArgs"
  let ?ck = "nmeaChecksum (of_char (?buf2 ! 1)) (map of_char (drop 2 ?buf2))"
  let ?x = "fold (\<lambda>c a. a XOR of_char c) (''PSRF'' @ ?field @ '','' @ cmdArgs) (0 :: nat)"
  have fl: "length ?field = 3"
    by (simp add: fmt_3d_field [OF assms(1,2)])
  have "?ck = nmeaChecksum (of_char CHR ''P'') (map of_char (''SRF'' @ ?field @ '','' @ cmdArgs))"
    by simp
  then have ck: "unat ?ck = ?x"
    by (simp only: nmeaChecksum_text) simp
  have x: "?x < 256"
    unfolding ck [symmetric] by (rule nmeaChecksum_less)
  have tk: "take MAXBUFFERSIZE (c_str cmdArgs) = cmdArgs"
    using assms(3,4) by (simp add: c_str_no_NUL)
  have w: "writeNMEAcmd mid cmdArgs (WrAccept k) True =
      Inr (?buf2 @ ''*'' @ [digit_char (?x div 16), digit_char (?x mod 16)] @ [CHR 0x0D, CHR 0x0A])"
    unfolding writeNMEAcmd_def Let_def tk ck fmt_02X_byte [OF x]
    using assms(4,5) by (simp add: fl sys_write_def MAXBUFFERSIZE_def)
  from x w show ?thesis
    unfolding Let_def fmt_3d_field [OF assms(1,2), symmetric] by simp
qed

theorem writeNMEAcmd_frame_witness:
  "writeNMEAcmd 100 ''0,9600,8,1,0'' (WrAccept 100) True
     = Inr (''$PSRF100,0,9600,8,1,0*0C'' @ [CHR 0x0D, CHR 0x0A])"
proof -
  have A: "0 \<le> (100 :: int)" "(100 :: int) \<le> 999" "CHR 0x00 \<notin> set ''0,9600,8,1,0''"
    "length ''0,9600,8,1,0'' + 15 \<le> MAXBUFFERSIZE" "length ''0,9600,8,1,0'' + 14 \<le> (100 :: nat)"
    by (simp_all add: MAXBUFFERSIZE_def)
  have ckw: "nmeaChecksum (of_char CHR ''P'') (map of_char ''SRF100,0,9600,8,1,0'') = 12"
    by (simp add: nmeaChecksum_def)
  have x: "fold (\<lambda>c a. a XOR of_char c) ''PSRF100,0,9600,8,1,0'' (0 :: nat) = 12"
    by (simp only: nmeaChecksum_text [symmetric] ckw) simp
  have d: "digit_char 0 = CHR ''0''" "digit_char (Suc 0) = CHR ''1''" "digit_char 12 = CHR ''C''"
    by (simp_all add: digit_char_def)
  show ?thesis
    using writeNMEAcmd_frame [OF A] by (simp add: Let_def d x del: fold.simps)
qed

theorem writeNMEAcmd_frame_counterexample:
  "\<exists>frame. writeNMEAcmd 5 ''1'' (WrAccept 100) True = Inr frame \<and>
           take 9 frame = ''$PSRF  5,'' \<and> take 9 frame \<noteq> ''$PSRF005,''"
proof -
  have f: "fmt_3d 5 = ''  5''"
    by (simp add: fmt_3d_def digit_char_def numeral_2_eq_2)
  have c: "nmeaChecksum 80 [83, 82, 70, 32, 32, 53, 44, 49] = 0x3F"
    by (simp add: nmeaChecksum_def)
  have h: "fmt_02X 63 = ''3F''"
    by (simp add: fmt_02X_def digit_char_def)
  have "writeNMEAcmd 5 ''1'' (WrAccept 100) True = Inr (''$PSRF  5,1*3F'' @ [CHR 0x0D, CHR 0x0A])"
    by (simp add: writeNMEAcmd_def Let_def c_str_def MAXBUFFERSIZE_def sys_write_def f c h)
  then show ?thesis by simp
qed

end
